theory Spec2Isabelle
  imports Main "HOL-Library.Monad_Syntax"
begin

section \<open>The NachOS file system facade (code/filesys/filesys.cc)\<close>

text \<open>
  The development embeds \<^verbatim>\<open>FileSystem\<close> of \<^verbatim>\<open>filesys.cc\<close>: path splitting and
  joining, directory resolution, \<^verbatim>\<open>Create\<close>, \<^verbatim>\<open>CreateDirectory\<close>, \<^verbatim>\<open>Open\<close>,
  \<^verbatim>\<open>Remove\<close> and the descriptor table.

  Conventions. A C string is the list of its characters before the terminating NUL.
  A function of the source that can run into undefined behaviour (a store or load
  outside an array, a NULL dereference), into a failed \<^verbatim>\<open>ASSERT\<close>, or that may not
  return, yields an \<open>option\<close>: \<open>None\<close> says that the call does not return normally.
  A pointer that may be \<^verbatim>\<open>NULL\<close> and an integer that may be the sentinel \<^verbatim>\<open>-1\<close> are
  \<open>option\<close> values as well (\<open>None\<close> is \<^verbatim>\<open>NULL\<close>, respectively \<^verbatim>\<open>-1\<close>).
\<close>

subsection \<open>Geometry\<close>

text \<open>
  Modelled from the spec: \<^verbatim>\<open>disk.h\<close>, \<^verbatim>\<open>filehdr.h\<close> and \<^verbatim>\<open>directory.h\<close> are not part
  of the sources at hand. The constants are those of the spec's scenarios
  (S = 128 sectors of B = 128 bytes, NumDirect = (B - 3 * sizeof(int)) / sizeof(int) = 29,
  names of at most N = 9 characters). \<^verbatim>\<open>NumDirEntries\<close> is defined in \<^verbatim>\<open>filesys.cc\<close>.
  A directory entry \<^verbatim>\<open>inUse:bool, type:bool, sector:int, name:char[N + 1]\<close> is taken
  to occupy 20 bytes.
\<close>

definition SectorSize :: nat where
  "SectorSize = 128"

definition NumSectors :: nat where
  "NumSectors = 128"

definition NumDirect :: nat where
  "NumDirect = 29"

definition FileNameMaxLen :: nat where
  "FileNameMaxLen = 9"

definition NumDirEntries :: nat where
  "NumDirEntries = 64"

definition DirectoryEntrySize :: nat where
  "DirectoryEntrySize = 20"

definition FreeMapSector :: nat where
  "FreeMapSector = 0"

definition DirectorySector :: nat where
  "DirectorySector = 1"

definition FreeMapFileSize :: int where
  "FreeMapFileSize = int (NumSectors div 8)"

definition DirectoryFileSize :: int where
  "DirectoryFileSize = int (DirectoryEntrySize * NumDirEntries)"

text \<open>
  Modelled from the spec: the macro \<^verbatim>\<open>divRoundUp\<close> of \<^verbatim>\<open>utility.h\<close> is not part of the
  sources at hand; the spec uses it as the ceiling of the quotient.
\<close>

definition divRoundUp :: "int \<Rightarrow> int \<Rightarrow> int" where
  "divRoundUp n s = - ((- n) div s)"

subsection \<open>The free-sector bitmap\<close>

text \<open>
  Modelled from the spec: \<^verbatim>\<open>PersistentBitmap\<close> (\<^verbatim>\<open>pbitmap.h\<close>) is not part of the sources
  at hand. Section 4.1 of the spec: a bitmap is an array of S booleans, \<open>mark\<close> and
  \<open>clear\<close> set and clear bit \<open>i\<close>, \<open>find_and_set\<close> scans for the first clear bit,
  sets it and returns its index, or returns -1 if there is none. A bit outside the
  array does not exist: marking or clearing it does not return normally.

  Where bits are cleared, the bitmap in memory is paired with the record of the calls
  of \<open>clear\<close> made on it: the second component lists their sectors in the order of
  the calls. \<open>Clear\<close> appends to it, so that a bit cleared twice stands in it twice.
\<close>

type_synonym bitmap = "bool list"

definition Mark :: "nat \<Rightarrow> bitmap \<Rightarrow> bitmap option" where
  "Mark i bm = (if i < length bm then Some (bm[i := True]) else None)"

definition Clear :: "nat \<Rightarrow> bitmap \<times> nat list \<Rightarrow> (bitmap \<times> nat list) option" where
  "Clear i m =
     (case m of
        (bm, cleared) \<Rightarrow> if i < length bm then Some (bm[i := False], cleared @ [i]) else None)"

definition Test :: "nat \<Rightarrow> bitmap \<Rightarrow> bool" where
  "Test i bm = (i < length bm \<and> bm ! i)"

fun firstClear :: "bitmap \<Rightarrow> nat \<Rightarrow> nat option" where
  "firstClear [] i = None"
| "firstClear (b # bs) i = (if b then firstClear bs (Suc i) else Some i)"

definition FindAndSet :: "bitmap \<Rightarrow> nat option \<times> bitmap" where
  "FindAndSet bm =
     (case firstClear bm 0 of
        None \<Rightarrow> (None, bm)
      | Some i \<Rightarrow> (Some i, bm[i := True]))"

text \<open>\<open>clearAll\<close> is a run of \<open>Clear\<close> calls, one for each sector of the list, in order.\<close>

fun clearAll :: "nat list \<Rightarrow> bitmap \<times> nat list \<Rightarrow> (bitmap \<times> nat list) option" where
  "clearAll [] m = Some m"
| "clearAll (s # ss) m = (case Clear s m of None \<Rightarrow> None | Some m' \<Rightarrow> clearAll ss m')"

subsection \<open>File headers\<close>

text \<open>
  Modelled from the spec: \<^verbatim>\<open>FileHeader\<close> (\<^verbatim>\<open>filehdr.h\<close>) is not part of the sources at
  hand. Section 3 of the spec gives its fields; \<open>dataSectors\<close> is an array of
  \<open>NumDirect\<close> sector numbers. What a fresh header holds is not fixed by the spec; the
  model fills it with zeros, and nothing below depends on that choice.
\<close>

record FileHeader =
  numBytes :: int
  numSectors :: int
  level :: int
  dataSectors :: "nat list"

definition newFileHeader :: FileHeader where
  "newFileHeader = \<lparr>numBytes = 0, numSectors = 0, level = 0, dataSectors = replicate NumDirect 0\<rparr>"

text \<open>\<open>findAndSetN n bm\<close>: \<open>n\<close> calls of \<open>FindAndSet\<close>, stopping at the first that fails.\<close>

fun findAndSetN :: "nat \<Rightarrow> bitmap \<Rightarrow> nat list option \<times> bitmap" where
  "findAndSetN 0 bm = (Some [], bm)"
| "findAndSetN (Suc n) bm =
     (case FindAndSet bm of
        (None, bm') \<Rightarrow> (None, bm')
      | (Some s, bm') \<Rightarrow>
          (case findAndSetN n bm' of
             (None, bm'') \<Rightarrow> (None, bm'')
           | (Some ss, bm'') \<Rightarrow> (Some (s # ss), bm'')))"

text \<open>
  Section 4.2 of the spec, \<open>allocate(bitmap, bytes)\<close>: with \<open>n = ceil(bytes / B)\<close>, fail
  if \<open>n > NumDirect\<close>; call \<open>find_and_set\<close> \<open>n\<close> times; on success record
  \<open>numBytes = bytes\<close> and \<open>numSectors = n\<close>. On failure the bitmap keeps the bits set so
  far (the caller drops it) and the header is returned as it was.
\<close>

definition Allocate :: "FileHeader \<Rightarrow> bitmap \<Rightarrow> int \<Rightarrow> bool \<times> FileHeader \<times> bitmap" where
  "Allocate hdr freeMap fileSize =
     (let n = divRoundUp fileSize (int SectorSize) in
      if n > int NumDirect then (False, hdr, freeMap)
      else
        (case findAndSetN (nat n) freeMap of
           (None, freeMap') \<Rightarrow> (False, hdr, freeMap')
         | (Some ss, freeMap') \<Rightarrow>
             (True,
              hdr\<lparr>numBytes := fileSize, numSectors := n,
                  dataSectors := ss @ drop (length ss) (dataSectors hdr)\<rparr>,
              freeMap')))"

text \<open>
  Section 4.2 of the spec, \<open>deallocate(bitmap)\<close>: clear every bit referenced by
  \<open>dataSectors[0..numSectors)\<close>. The array has \<open>NumDirect\<close> slots; a header whose
  \<open>numSectors\<close> exceeds the array makes the loop read outside it.
\<close>

definition Deallocate ::
  "FileHeader \<Rightarrow> bitmap \<times> nat list \<Rightarrow> (bitmap \<times> nat list) option" where
  "Deallocate hdr freeMap =
     (if numSectors hdr > int (length (dataSectors hdr)) then None
      else clearAll (take (nat (numSectors hdr)) (dataSectors hdr)) freeMap)"

subsection \<open>Directories\<close>

text \<open>
  Modelled from the spec: \<^verbatim>\<open>Directory\<close> (\<^verbatim>\<open>directory.h\<close>) is not part of the sources at
  hand. Sections 3 and 4.3 of the spec: a table of entries \<open>inUse\<close>, \<open>type\<close>
  (set for a subdirectory), \<open>sector\<close>, \<open>name\<close>; \<open>find_index\<close> is a linear scan over the
  entries in use that match the name; \<open>add\<close> places the entry in the first free slot
  and fails if the name is present or the table is full; \<open>remove\<close> clears the \<open>inUse\<close>
  flag of the matching slot. Names are cut to \<open>FileNameMaxLen\<close> characters.
\<close>

record DirectoryEntry =
  inUse :: bool
  type :: bool
  sector :: nat
  name :: string

type_synonym Directory = "DirectoryEntry list"

definition emptyEntry :: DirectoryEntry where
  "emptyEntry = \<lparr>inUse = False, type = False, sector = 0, name = []\<rparr>"

definition newDirectory :: "nat \<Rightarrow> Directory" where
  "newDirectory sz = replicate sz emptyEntry"

definition matches :: "string \<Rightarrow> DirectoryEntry \<Rightarrow> bool" where
  "matches nm e = (inUse e \<and> take FileNameMaxLen (name e) = take FileNameMaxLen nm)"

fun firstIndex :: "('a \<Rightarrow> bool) \<Rightarrow> 'a list \<Rightarrow> nat \<Rightarrow> nat option" where
  "firstIndex P [] i = None"
| "firstIndex P (x # xs) i = (if P x then Some i else firstIndex P xs (Suc i))"

definition FindIndex :: "Directory \<Rightarrow> string \<Rightarrow> nat option" where
  "FindIndex table nm = firstIndex (matches nm) table 0"

definition Find :: "Directory \<Rightarrow> string \<Rightarrow> nat option" where
  "Find table nm = (case FindIndex table nm of None \<Rightarrow> None | Some i \<Rightarrow> Some (sector (table ! i)))"

definition addEntry :: "bool \<Rightarrow> Directory \<Rightarrow> string \<Rightarrow> nat \<Rightarrow> Directory option" where
  "addEntry isDir table nm newSector =
     (case FindIndex table nm of
        Some i \<Rightarrow> None
      | None \<Rightarrow>
          (case firstIndex (\<lambda>e. \<not> inUse e) table 0 of
             None \<Rightarrow> None
           | Some i \<Rightarrow>
               Some (table[i := \<lparr>inUse = True, type = isDir, sector = newSector,
                                 name = take FileNameMaxLen nm\<rparr>])))"

definition Add :: "Directory \<Rightarrow> string \<Rightarrow> nat \<Rightarrow> Directory option" where
  "Add = addEntry False"

definition AddDir :: "Directory \<Rightarrow> string \<Rightarrow> nat \<Rightarrow> Directory option" where
  "AddDir = addEntry True"

definition DirectoryRemove :: "Directory \<Rightarrow> string \<Rightarrow> Directory" where
  "DirectoryRemove table nm =
     (case FindIndex table nm of
        None \<Rightarrow> table
      | Some i \<Rightarrow> table[i := (table ! i)\<lparr>inUse := False\<rparr>])"

subsection \<open>The disk\<close>

text \<open>
  Modelled from the spec: the block device and \<^verbatim>\<open>OpenFile\<close> are not part of the sources
  at hand (the spec treats them as external collaborators). The disk is seen through
  the three ways the facade reads it: \<open>headers d s\<close> is what \<^verbatim>\<open>FileHeader::FetchFrom(s)\<close>
  loads, \<open>freeMapFile d\<close> is what the bitmap file holds, and \<open>dirFile d s\<close> is the table
  that \<^verbatim>\<open>Directory::FetchFrom\<close> loads from the file whose header is in sector \<open>s\<close>.
  The data sectors themselves are not modelled: the contents of a file are kept with
  the sector of its header, so that writing one file changes neither another file nor
  a header. The bitmap file holds one bit for each sector; nothing below depends on
  their number. An open file is known by the sector of its header.
\<close>

record disk =
  headers :: "nat \<Rightarrow> FileHeader"
  freeMapFile :: bitmap
  dirFile :: "nat \<Rightarrow> Directory"

datatype OpenFile = OpenFile (hdrSector: nat)

subsection \<open>Paths\<close>

text \<open>
  \<^verbatim>\<open>SplitPath\<close> copies the path into \<^verbatim>\<open>parent[1024]\<close>, walks \<open>idx\<close> down from the last
  character to the last \<^verbatim>\<open>'/'\<close>, stores NUL at \<open>parent[idx]\<close> and copies what follows
  into \<open>name\<close>. \<open>lastSlash s k\<close> is the loop entered with \<open>idx = k - 1\<close>; it returns
  \<open>None\<close> when the loop ends with \<open>idx = -1\<close>. Then \<^verbatim>\<open>parent[idx] = '\0'\<close> stores in
  front of the array: the call has no defined result. A path of 1024 characters or
  more leaves \<open>parent\<close> without a terminator.
\<close>

fun lastSlash :: "string \<Rightarrow> nat \<Rightarrow> nat option" where
  "lastSlash s 0 = None"
| "lastSlash s (Suc k) = (if s ! k = CHR ''/'' then Some k else lastSlash s k)"

definition SplitPath :: "string \<Rightarrow> (string \<times> string) option" where
  "SplitPath fullpath =
     (if length fullpath \<ge> 1024 then None
      else
        (case lastSlash fullpath (length fullpath) of
           None \<Rightarrow> None
         | Some idx \<Rightarrow>
             (let parent = take idx fullpath;
                  nm = drop (idx + 1) fullpath
              in Some (if length parent = 0 then ''/'' else parent, nm))))"

text \<open>
  \<^verbatim>\<open>JoinPath\<close> reads \<^verbatim>\<open>dest[strlen(dest) - 1]\<close>, which lies in front of the array for an
  empty parent, and appends into \<^verbatim>\<open>dest[1024]\<close> without a bound.
\<close>

definition JoinPath :: "string \<Rightarrow> string \<Rightarrow> string option" where
  "JoinPath parent nm =
     (if length parent \<ge> 1024 \<or> length parent = 0 then None
      else
        (let dest = (if last parent = CHR ''/'' then parent else parent @ ''/'') @ nm
         in if length dest \<ge> 1024 then None else Some dest))"


subsection \<open>Resolving a directory path\<close>

text \<open>
  \<^verbatim>\<open>strtok(path, "/")\<close> cuts the path at the slashes and skips empty components.
  \<open>fields\<close> cuts at every slash, \<open>tokens\<close> keeps the components that are not empty.
\<close>

fun fields :: "string \<Rightarrow> string list" where
  "fields [] = [[]]"
| "fields (c # cs) =
     (if c = CHR ''/'' then [] # fields cs
      else (case fields cs of [] \<Rightarrow> [[c]] | t # ts \<Rightarrow> (c # t) # ts))"

definition tokens :: "string \<Rightarrow> string list" where
  "tokens s = filter (\<lambda>t. t \<noteq> []) (fields s)"

text \<open>
  The loop of \<^verbatim>\<open>OpenDir\<close>: look the component up in the current table; if it is absent
  return \<^verbatim>\<open>NULL\<close>, otherwise load the table of the file in the sector found. No check
  is made that the entry is a directory.
\<close>

fun walk :: "disk \<Rightarrow> Directory \<Rightarrow> nat \<Rightarrow> string list \<Rightarrow> nat option" where
  "walk d directory sec [] = Some sec"
| "walk d directory sec (split # rest) =
     (case Find directory split of
        None \<Rightarrow> None
      | Some s \<Rightarrow> walk d (dirFile d s) s rest)"

text \<open>
  \<^verbatim>\<open>OpenDir\<close> copies the path into \<^verbatim>\<open>path[1024]\<close> (no terminator for 1024 characters or
  more). The next component is asked for with
  \<^verbatim>\<open>strtok(split + strlen(split) + 1, "/")\<close>: after a component that ends the string this
  is the byte behind the terminator, which lies in the zero padding of \<^verbatim>\<open>strncpy\<close>
  unless the path has 1023 characters, when it lies behind the array.
\<close>

definition OpenDir :: "disk \<Rightarrow> string \<Rightarrow> OpenFile option option" where
  "OpenDir d inpath =
     (if length inpath \<ge> 1024 then None
      else
        (case walk d (dirFile d DirectorySector) 1 (tokens inpath) of
           None \<Rightarrow> Some None
         | Some s \<Rightarrow>
             if length inpath = 1023 \<and> last inpath \<noteq> CHR ''/'' then None
             else Some (Some (OpenFile s))))"

subsection \<open>Open\<close>

definition Open :: "disk \<Rightarrow> string \<Rightarrow> OpenFile option option" where
  "Open d path =
     (case SplitPath path of
        None \<Rightarrow> None
      | Some (parent, filename) \<Rightarrow>
          (case OpenDir d parent of
             None \<Rightarrow> None
           | Some None \<Rightarrow> Some None
           | Some (Some dirF) \<Rightarrow>
               (case Find (dirFile d (hdrSector dirF)) filename of
                  None \<Rightarrow> Some None
                | Some s \<Rightarrow> Some (Some (OpenFile s)))))"

subsection \<open>Create\<close>

text \<open>
  The first loop of \<^verbatim>\<open>Create\<close>: \<^verbatim>\<open>level1Sector[i] = freeMap->FindAndSet()\<close> for
  \<open>i < NumOfLevel1Hdr\<close>, leaving the loop at the first -1. The array has \<open>NumDirect\<close>
  slots, and the store comes before the test. \<open>level1Loop i k\<close> is the loop at index
  \<open>i\<close> with \<open>k\<close> rounds to go; it returns the sectors stored, \<open>level1Flag\<close> and the
  bitmap.
\<close>

fun level1Loop :: "nat \<Rightarrow> nat \<Rightarrow> bitmap \<Rightarrow> (nat list \<times> bool \<times> bitmap) option" where
  "level1Loop i 0 freeMap = Some ([], True, freeMap)"
| "level1Loop i (Suc k) freeMap =
     (case FindAndSet freeMap of
        (r, freeMap') \<Rightarrow>
          if i \<ge> NumDirect then None
          else
            (case r of
               None \<Rightarrow> Some ([], False, freeMap')
             | Some s \<Rightarrow>
                 (case level1Loop (Suc i) k freeMap' of
                    None \<Rightarrow> None
                  | Some (ss, flag, fm) \<Rightarrow> Some (s # ss, flag, fm))))"

text \<open>
  The \<^verbatim>\<open>while (remainFileSize > 0)\<close> loop of \<^verbatim>\<open>Create\<close>: each round asks for at most
  \<open>NumDirect * SectorSize\<close> bytes, sets the level of the next level-1 header and
  allocates its data sectors; a failed allocation clears \<open>success\<close> and the loop goes
  on.
\<close>

function dataLoop ::
  "int \<Rightarrow> nat \<Rightarrow> FileHeader list \<Rightarrow> bitmap \<Rightarrow> bool \<Rightarrow> (FileHeader list \<times> bitmap \<times> bool) option" where
  "dataLoop remainFileSize level1HdrIdx level1Hdr freeMap success =
     (if remainFileSize > 0 then
        (let toRequest =
               (if remainFileSize \<ge> int (NumDirect * SectorSize) then int (NumDirect * SectorSize)
                else remainFileSize)
         in if level1HdrIdx \<ge> length level1Hdr then None
            else
              (case Allocate ((level1Hdr ! level1HdrIdx)\<lparr>level := 1\<rparr>) freeMap toRequest of
                 (ok, h, freeMap') \<Rightarrow>
                   dataLoop (remainFileSize - toRequest) (Suc level1HdrIdx)
                     (level1Hdr[level1HdrIdx := h]) freeMap' (success \<and> ok)))
      else Some (level1Hdr, freeMap, success))"
  by pat_completeness auto
termination
  by (relation "measure (\<lambda>(r, i, hs, fm, b). nat r)")
     (auto simp: NumDirect_def SectorSize_def)

text \<open>\<^verbatim>\<open>level1Hdr[i].WriteBack(level1Sector[i])\<close> for \<open>i < NumOfLevel1Hdr\<close>.\<close>

definition writeLevel1 ::
  "nat list \<Rightarrow> FileHeader list \<Rightarrow> nat \<Rightarrow> (nat \<Rightarrow> FileHeader) \<Rightarrow> (nat \<Rightarrow> FileHeader)" where
  "writeLevel1 level1Sector level1Hdr n hs =
     foldl (\<lambda>h i. h(level1Sector ! i := level1Hdr ! i)) hs [0..<n]"

definition Create :: "disk \<Rightarrow> string \<Rightarrow> int \<Rightarrow> (bool \<times> disk) option" where
  "Create d path initialSize =
     (let NumOfLevel1Hdr = divRoundUp initialSize (int (SectorSize * NumDirect)) in
      case SplitPath path of
        None \<Rightarrow> None
      | Some (parent, filename) \<Rightarrow>
          (case OpenDir d parent of
             None \<Rightarrow> None
           | Some None \<Rightarrow> Some (False, d)
           | Some (Some dirF) \<Rightarrow>
               (let directory = dirFile d (hdrSector dirF) in
                case Find directory filename of
                  Some s \<Rightarrow> Some (False, d)
                | None \<Rightarrow>
                    (case FindAndSet (freeMapFile d) of
                       (sec, freeMap1) \<Rightarrow>
                         (case level1Loop 0 (nat NumOfLevel1Hdr) freeMap1 of
                            None \<Rightarrow> None
                          | Some (level1Sector, level1Flag, freeMap2) \<Rightarrow>
                              (case sec of
                                 None \<Rightarrow> Some (False, d)
                               | Some hdrSec \<Rightarrow>
                                   if level1Flag = False then Some (False, d)
                                   else
                                     (case Add directory filename hdrSec of
                                        None \<Rightarrow> Some (False, d)
                                      | Some directory' \<Rightarrow>
                                          (let hdr = newFileHeader
                                                 \<lparr>numBytes := initialSize,
                                                  numSectors := NumOfLevel1Hdr,
                                                  level := 0,
                                                  dataSectors := level1Sector @
                                                    drop (length level1Sector)
                                                      (dataSectors newFileHeader)\<rparr>
                                           in case dataLoop initialSize 0
                                                     (replicate NumDirect newFileHeader)
                                                     freeMap2 True of
                                                None \<Rightarrow> None
                                              | Some (level1Hdr, freeMap3, success) \<Rightarrow>
                                                  if success then
                                                    Some (True,
                                                      d\<lparr>headers :=
                                                          writeLevel1 level1Sector level1Hdr
                                                            (nat NumOfLevel1Hdr)
                                                            ((headers d)(hdrSec := hdr)),
                                                        freeMapFile := freeMap3,
                                                        dirFile :=
                                                          (dirFile d)
                                                            (hdrSector dirF := directory')\<rparr>)
                                                  else Some (False, d)))))))))"

subsection \<open>CreateDirectory\<close>

definition CreateDirectory :: "disk \<Rightarrow> string \<Rightarrow> string \<Rightarrow> (bool \<times> disk) option" where
  "CreateDirectory d nm parent =
     (case OpenDir d parent of
        None \<Rightarrow> None
      | Some None \<Rightarrow> Some (False, d)
      | Some (Some dirF) \<Rightarrow>
          (let directory = dirFile d (hdrSector dirF) in
           case Find directory nm of
             Some s \<Rightarrow> Some (False, d)
           | None \<Rightarrow>
               (case FindAndSet (freeMapFile d) of
                  (None, freeMap1) \<Rightarrow> Some (False, d)
                | (Some hdrSec, freeMap1) \<Rightarrow>
                    (case AddDir directory nm hdrSec of
                       None \<Rightarrow> Some (False, d)
                     | Some directory' \<Rightarrow>
                         (case Allocate (newFileHeader\<lparr>level := 1\<rparr>) freeMap1 DirectoryFileSize of
                            (ok, dirHdr, freeMap2) \<Rightarrow>
                              if ok then
                                Some (True,
                                  d\<lparr>headers := (headers d)(hdrSec := dirHdr),
                                    freeMapFile := freeMap2,
                                    dirFile :=
                                      ((dirFile d)(hdrSector dirF := directory'))
                                        (hdrSec := newDirectory NumDirEntries)\<rparr>)
                              else Some (False, d))))))"


subsection \<open>Remove\<close>

text \<open>
  The loop over the children of a directory: for every entry in use of the table
  loaded before the loop, join the path and call \<^verbatim>\<open>Remove\<close>; what the call returns is
  dropped. \<open>rec\<close> stands for the recursive call; the lines it prints are appended.
\<close>

fun removeChildren ::
  "(disk \<Rightarrow> string \<Rightarrow> bool \<Rightarrow> (bool \<times> disk \<times> string list) option) \<Rightarrow>
   string \<Rightarrow> bool \<Rightarrow> Directory \<Rightarrow> disk \<Rightarrow> string list \<Rightarrow> (disk \<times> string list) option" where
  "removeChildren rec path recur [] d out = Some (d, out)"
| "removeChildren rec path recur (e # es) d out =
     (if inUse e then
        (case JoinPath path (name e) of
           None \<Rightarrow> None
         | Some nextFilename \<Rightarrow>
             (case rec d nextFilename recur of
                None \<Rightarrow> None
              | Some (b, d', out') \<Rightarrow> removeChildren rec path recur es d' (out @ out')))
      else removeChildren rec path recur es d out)"

text \<open>
  For a header of level 0: load each level-1 header listed and deallocate its data
  sectors. The loop reads \<open>dataSectors[i]\<close> for \<open>i < numSectors\<close>.
\<close>

fun deallocateChildren ::
  "disk \<Rightarrow> nat list \<Rightarrow> bitmap \<times> nat list \<Rightarrow> (bitmap \<times> nat list) option" where
  "deallocateChildren d [] freeMap = Some freeMap"
| "deallocateChildren d (s # ss) freeMap =
     (case Deallocate (headers d s) freeMap of
        None \<Rightarrow> None
      | Some freeMap' \<Rightarrow> deallocateChildren d ss freeMap')"

definition deallocateLevel1 ::
  "disk \<Rightarrow> FileHeader \<Rightarrow> bitmap \<times> nat list \<Rightarrow> (bitmap \<times> nat list) option" where
  "deallocateLevel1 d fileHdr freeMap =
     (if level fileHdr = 0 then
        (if numSectors fileHdr > int (length (dataSectors fileHdr)) then None
         else deallocateChildren d (take (nat (numSectors fileHdr)) (dataSectors fileHdr)) freeMap)
      else Some freeMap)"

text \<open>
  The tail of \<^verbatim>\<open>Remove\<close> (from \<^verbatim>\<open>if (fileHdr->level == 0)\<close> on): free the sectors in the
  bitmap loaded at the start of the call, drop the entry from the parent's table, and
  write bitmap and table back. The result is the disk written and the sectors of the
  calls of \<open>Clear\<close> made on the way, in their order.
\<close>

definition releaseFile ::
  "disk \<Rightarrow> nat \<Rightarrow> Directory \<Rightarrow> string \<Rightarrow> nat \<Rightarrow> FileHeader \<Rightarrow> bitmap \<Rightarrow>
   (disk \<times> nat list) option" where
  "releaseFile d dirSec directory filename sec fileHdr freeMap =
     (case deallocateLevel1 d fileHdr (freeMap, []) of
        None \<Rightarrow> None
      | Some freeMap1 \<Rightarrow>
          (case Deallocate fileHdr freeMap1 of
             None \<Rightarrow> None
           | Some freeMap2 \<Rightarrow>
               (case Clear sec freeMap2 of
                  None \<Rightarrow> None
                | Some (freeMap3, cleared) \<Rightarrow>
                    Some (d\<lparr>freeMapFile := freeMap3,
                            dirFile := (dirFile d)(dirSec := DirectoryRemove directory filename)\<rparr>,
                          cleared))))"

text \<open>
  One call of \<^verbatim>\<open>Remove\<close>, with \<open>rec\<close> for the calls it makes on the children. The
  result is the value returned, the disk, and the lines printed.
\<close>

definition RemoveBody ::
  "(disk \<Rightarrow> string \<Rightarrow> bool \<Rightarrow> (bool \<times> disk \<times> string list) option) \<Rightarrow>
   disk \<Rightarrow> string \<Rightarrow> bool \<Rightarrow> (bool \<times> disk \<times> string list) option" where
  "RemoveBody rec d path recur =
     (let out0 = [''Remove '' @ path] in
      case SplitPath path of
        None \<Rightarrow> None
      | Some (parent, filename) \<Rightarrow>
          (case OpenDir d parent of
             None \<Rightarrow> None
           | Some None \<Rightarrow> Some (False, d, out0 @ [''Directory '' @ parent @ '' not found!''])
           | Some (Some dirF) \<Rightarrow>
               (let directory = dirFile d (hdrSector dirF) in
                case Find directory filename of
                  None \<Rightarrow> Some (False, d, out0 @ [''File '' @ filename @ '' not found!''])
                | Some sec \<Rightarrow>
                    (case FindIndex directory filename of
                       None \<Rightarrow> None
                     | Some tableIdx \<Rightarrow>
                         (let fileHdr = headers d sec;
                              freeMap = freeMapFile d
                          in if type (directory ! tableIdx) then
                               (case OpenDir d path of
                                  None \<Rightarrow> None
                                | Some None \<Rightarrow> None
                                | Some (Some nextDirFile) \<Rightarrow>
                                    (let nextDir = dirFile d (hdrSector nextDirFile);
                                         totalCount = length (filter inUse nextDir)
                                     in if recur = False \<and> totalCount \<noteq> 0 then
                                          Some (False, d,
                                            out0 @ [filename @ '': directory not empty!''])
                                        else
                                          (case removeChildren rec path recur nextDir d out0 of
                                             None \<Rightarrow> None
                                           | Some (d1, out1) \<Rightarrow>
                                               (case releaseFile d1 (hdrSector dirF) directory
                                                       filename sec fileHdr freeMap of
                                                  None \<Rightarrow> None
                                                | Some (d2, cleared) \<Rightarrow>
                                                    Some (True, d2, out1)))))
                             else
                               (case releaseFile d (hdrSector dirF) directory filename sec
                                       fileHdr freeMap of
                                  None \<Rightarrow> None
                                | Some (d2, cleared) \<Rightarrow> Some (True, d2, out0)))))))"

text \<open>
  \<^verbatim>\<open>Remove\<close> calls itself for the children of a directory, and nothing bounds the depth
  on a disk whose directories form a cycle. The first argument bounds the depth of
  the calls; \<open>None\<close> is returned when it is used up.
\<close>

primrec Remove ::
  "nat \<Rightarrow> disk \<Rightarrow> string \<Rightarrow> bool \<Rightarrow> (bool \<times> disk \<times> string list) option" where
  "Remove 0 = (\<lambda>d path recur. None)"
| "Remove (Suc n) = RemoveBody (Remove n)"

subsection \<open>Formatting\<close>

text \<open>
  The constructor with \<open>format = TRUE\<close>: mark the two header sectors, allocate the data
  sectors of the bitmap file and of the root directory file (an \<^verbatim>\<open>ASSERT\<close> on each),
  write the two headers, then the bitmap and an empty directory.
\<close>

definition Format :: "disk \<Rightarrow> disk option" where
  "Format d =
     (case Mark FreeMapSector (replicate NumSectors False) of
        None \<Rightarrow> None
      | Some freeMap0 \<Rightarrow>
          (case Mark DirectorySector freeMap0 of
             None \<Rightarrow> None
           | Some freeMap1 \<Rightarrow>
               (case Allocate (newFileHeader\<lparr>level := 1\<rparr>) freeMap1 FreeMapFileSize of
                  (ok1, mapHdr, freeMap2) \<Rightarrow>
                    if ok1 then
                      (case Allocate (newFileHeader\<lparr>level := 1\<rparr>) freeMap2 DirectoryFileSize of
                         (ok2, dirHdr, freeMap3) \<Rightarrow>
                           if ok2 then
                             Some (d\<lparr>headers :=
                                       (headers d)(FreeMapSector := mapHdr, DirectorySector := dirHdr),
                                     freeMapFile := freeMap3,
                                     dirFile :=
                                       (dirFile d)(DirectorySector := newDirectory NumDirEntries)\<rparr>)
                           else None)
                    else None)))"

text \<open>A disk of zero bytes: every header reads as zeros and every table as unused.\<close>

definition zeroDisk :: disk where
  "zeroDisk =
     \<lparr>headers = (\<lambda>s. newFileHeader),
      freeMapFile = replicate NumSectors False,
      dirFile = (\<lambda>s. newDirectory NumDirEntries)\<rparr>"

subsection \<open>The descriptor table\<close>

text \<open>
  \<^verbatim>\<open>fileDescriptorTable\<close> is an array of 20 pointers, all \<^verbatim>\<open>NULL\<close> after construction.
  \<^verbatim>\<open>Open(name, unused)\<close> is called \<open>OpenFd\<close> here. An index outside the array has no
  defined result. \<^verbatim>\<open>OpenFile::Write\<close> and \<^verbatim>\<open>OpenFile::Read\<close> are not part of the sources
  at hand; the value they return is the parameter \<open>io\<close>.
\<close>

type_synonym fdTable = "OpenFile option list"

definition initTable :: fdTable where
  "initTable = replicate 20 None"

definition OpenFd :: "disk \<Rightarrow> fdTable \<Rightarrow> string \<Rightarrow> (int \<times> fdTable) option" where
  "OpenFd d table path =
     (case Open d path of
        None \<Rightarrow> None
      | Some fp \<Rightarrow>
          (case List.find (\<lambda>i. table ! i = None) [1..<20] of
             None \<Rightarrow> Some (- 1, table)
           | Some i \<Rightarrow> Some (int i, table[i := fp])))"

definition Write ::
  "(OpenFile \<Rightarrow> string \<Rightarrow> int \<Rightarrow> int) \<Rightarrow> fdTable \<Rightarrow> string \<Rightarrow> int \<Rightarrow> int \<Rightarrow> int option" where
  "Write io table buffer sz fileid =
     (if fileid < 0 \<or> int (length table) \<le> fileid then None
      else
        (case table ! nat fileid of
           None \<Rightarrow> Some (- 1)
         | Some f \<Rightarrow> Some (io f buffer sz)))"

definition Read ::
  "(OpenFile \<Rightarrow> string \<Rightarrow> int \<Rightarrow> int) \<Rightarrow> fdTable \<Rightarrow> string \<Rightarrow> int \<Rightarrow> int \<Rightarrow> int option" where
  "Read io table buffer sz fileid =
     (if fileid < 0 \<or> int (length table) \<le> fileid then None
      else
        (case table ! nat fileid of
           None \<Rightarrow> Some (- 1)
         | Some f \<Rightarrow> Some (io f buffer sz)))"

definition Close :: "fdTable \<Rightarrow> int \<Rightarrow> (int \<times> fdTable) option" where
  "Close table fileid =
     (if fileid < 0 \<or> int (length table) \<le> fileid then None
      else
        (case table ! nat fileid of
           None \<Rightarrow> Some (0, table)
         | Some f \<Rightarrow> Some (1, table[nat fileid := None])))"


subsection \<open>Sectors owned, sectors referenced\<close>

text \<open>
  \<open>hdrListed h\<close> are the sectors that the header \<open>h\<close> lists, \<open>listed d s\<close> those of
  the header in sector \<open>s\<close>. A file built by
  \<^verbatim>\<open>Create\<close> owns the data sectors of its level-1 headers, the sectors of these
  headers, and the sector of its root header; \<open>ownedSectors\<close> lists them in this order.
\<close>

definition hdrListed :: "FileHeader \<Rightarrow> nat list" where
  "hdrListed h = take (nat (numSectors h)) (dataSectors h)"

definition listed :: "disk \<Rightarrow> nat \<Rightarrow> nat list" where
  "listed d s = hdrListed (headers d s)"

definition ownedSectors :: "disk \<Rightarrow> nat \<Rightarrow> nat list" where
  "ownedSectors d sec = concat (map (listed d) (listed d sec)) @ listed d sec @ [sec]"

text \<open>
  A two-level file is well formed when no header lists more sectors than its array
  holds, every sector it owns is a bit of the bitmap, and no sector is owned twice.
\<close>

definition wellFormedFile :: "disk \<Rightarrow> nat \<Rightarrow> bool" where
  "wellFormedFile d sec =
     (numSectors (headers d sec) \<le> int (length (dataSectors (headers d sec))) \<and>
      list_all (\<lambda>s. numSectors (headers d s) \<le> int (length (dataSectors (headers d s))))
        (listed d sec) \<and>
      list_all (\<lambda>s. s < length (freeMapFile d)) (ownedSectors d sec) \<and>
      distinct (ownedSectors d sec))"

text \<open>The sectors whose bit is set.\<close>

definition allocatedSectors :: "bitmap \<Rightarrow> nat list" where
  "allocatedSectors bm = filter (\<lambda>s. Test s bm) [0..<length bm]"

text \<open>
  The sectors referenced by a header: its own sector, the sectors it lists, and for a
  header of level 0 the sectors its level-1 headers list. \<open>referenced n d s\<close> collects
  them for the directory whose header is in sector \<open>s\<close> and for everything that can be
  reached through its entries in use, down to depth \<open>n\<close>.
\<close>

definition fileSectors :: "disk \<Rightarrow> nat \<Rightarrow> nat list" where
  "fileSectors d sec =
     (if level (headers d sec) = 0 then sec # listed d sec @ concat (map (listed d) (listed d sec))
      else sec # listed d sec)"

fun referenced :: "nat \<Rightarrow> disk \<Rightarrow> nat \<Rightarrow> nat list" where
  "referenced 0 d sec = fileSectors d sec"
| "referenced (Suc n) d sec =
     fileSectors d sec @
     concat (map (\<lambda>e. if inUse e then
                         (if type e then referenced n d (sector e) else fileSectors d (sector e))
                       else [])
               (dirFile d sec))"

definition referencedSectors :: "nat \<Rightarrow> disk \<Rightarrow> nat list" where
  "referencedSectors n d = fileSectors d FreeMapSector @ referenced n d DirectorySector"

subsection \<open>Well-formed disks\<close>

text \<open>
  The header in sector \<open>s\<close> lists no more sectors than its array holds, and each of
  them is a bit of the bitmap. An entry in use refers to a sector of the bitmap and has a
  name of 1 to \<open>FileNameMaxLen\<close> characters. \<open>depthAtMost k d s\<close>: following entries in
  use from the table of sector \<open>s\<close>, no chain of more than \<open>k\<close> entries exists (the
  resolver follows an entry whatever its type). A disk is well formed to depth \<open>k\<close>
  when its headers and the entries of its tables are in this sense and the root
  directory has depth at most \<open>k\<close>.
\<close>

definition headerOK :: "disk \<Rightarrow> nat \<Rightarrow> bool" where
  "headerOK d s =
     (numSectors (headers d s) \<le> int (length (dataSectors (headers d s))) \<and>
      list_all (\<lambda>x. x < length (freeMapFile d)) (listed d s))"

definition entryOK :: "disk \<Rightarrow> DirectoryEntry \<Rightarrow> bool" where
  "entryOK d e =
     (if inUse e then
        sector e < length (freeMapFile d) \<and> name e \<noteq> [] \<and> length (name e) \<le> FileNameMaxLen
      else True)"

fun depthAtMost :: "nat \<Rightarrow> disk \<Rightarrow> nat \<Rightarrow> bool" where
  "depthAtMost 0 d s = list_all (\<lambda>e. \<not> inUse e) (dirFile d s)"
| "depthAtMost (Suc k) d s =
     list_all (\<lambda>e. if inUse e then depthAtMost k d (sector e) else True) (dirFile d s)"

definition wellFormedDisk :: "nat \<Rightarrow> disk \<Rightarrow> bool" where
  "wellFormedDisk k d =
     (DirectorySector < length (freeMapFile d) \<and>
      list_all (\<lambda>s. headerOK d s \<and> list_all (entryOK d) (dirFile d s))
        [0..<length (freeMapFile d)] \<and>
      depthAtMost k d DirectorySector)"


subsection \<open>Example disks\<close>

text \<open>The zero disk after formatting.\<close>

definition formatted :: disk where
  "formatted = (case Format zeroDisk of Some d \<Rightarrow> d | None \<Rightarrow> zeroDisk)"

text \<open>The formatted disk after \<^verbatim>\<open>Create("/a", 100)\<close>.\<close>

definition diskWithFile :: disk where
  "diskWithFile = (case Create formatted ''/a'' 100 of Some (b, d) \<Rightarrow> d | None \<Rightarrow> formatted)"

text \<open>The formatted disk after \<^verbatim>\<open>CreateDirectory("d", "/")\<close> and \<^verbatim>\<open>Create("/d/x", 10)\<close>.\<close>

definition diskWithDir :: disk where
  "diskWithDir =
     (case CreateDirectory formatted ''d'' ''/'' of
        None \<Rightarrow> formatted
      | Some (b, d1) \<Rightarrow> (case Create d1 ''/d/x'' 10 of Some (b', d2) \<Rightarrow> d2 | None \<Rightarrow> d1))"

text \<open>
  The formatted disk after \<^verbatim>\<open>CreateDirectory("d", "/")\<close> and
  \<^verbatim>\<open>CreateDirectory("x/y", "/d")\<close>: the second call stores the name as it is given, so
  that \<^verbatim>\<open>/d\<close> holds an entry whose name contains a slash.
\<close>

definition diskWithOddName :: disk where
  "diskWithOddName =
     (case CreateDirectory formatted ''d'' ''/'' of
        None \<Rightarrow> formatted
      | Some (b, d1) \<Rightarrow>
          (case CreateDirectory d1 ''x/y'' ''/d'' of Some (b', d2) \<Rightarrow> d2 | None \<Rightarrow> d1))"

section \<open>Properties\<close>

subsection \<open>The example disks\<close>

text \<open>Formatting the zero disk succeeds, and so do the calls that build the examples.\<close>

lemma examples_built:
  "map_option (\<lambda>d. allocatedSectors (freeMapFile d)) (Format zeroDisk) = Some [0..<13]"
  "map_option fst (Create formatted ''/a'' 100) = Some True"
  "Option.bind (CreateDirectory formatted ''d'' ''/'')
     (\<lambda>(b1, d1). map_option (\<lambda>(b2, d2). (b1, b2)) (Create d1 ''/d/x'' 10)) = Some (True, True)"
  "Option.bind (CreateDirectory formatted ''d'' ''/'')
     (\<lambda>(b1, d1). map_option (\<lambda>(b2, d2). (b1, b2)) (CreateDirectory d1 ''x/y'' ''/d'')) =
   Some (True, True)"
  by code_simp+

text \<open>The disks built are well formed, to the depth of their directories.\<close>

lemma examples_wellFormed:
  "wellFormedDisk 0 formatted" "wellFormedDisk 1 diskWithFile"
  "wellFormedDisk 2 diskWithDir" "wellFormedDisk 2 diskWithOddName"
  by code_simp+

subsection \<open>Splitting a path\<close>



lemma lastSlash_none:
  "CHR ''/'' \<notin> set (take k s) \<Longrightarrow> k \<le> length s \<Longrightarrow> lastSlash s k = None"
proof (induction k)
  case 0
  then show ?case by simp
next
  case (Suc k)
  then have "k < length s" by simp
  then have "take (Suc k) s = take k s @ [s ! k]"
    by (simp add: take_Suc_conv_app_nth)
  with Suc show ?case
    by auto
qed

lemma lastSlash_Some:
  "lastSlash s k = Some i \<Longrightarrow> k \<le> length s \<Longrightarrow>
   i < k \<and> s ! i = CHR ''/'' \<and> CHR ''/'' \<notin> set (drop (Suc i) (take k s))"
proof (induction k)
  case 0
  then show ?case by simp
next
  case (Suc k)
  show ?case
  proof (cases "s ! k = CHR ''/''")
    case True
    with Suc.prems show ?thesis by simp
  next
    case False
    with Suc have ih: "i < k \<and> s ! i = CHR ''/'' \<and> CHR ''/'' \<notin> set (drop (Suc i) (take k s))"
      by simp
    have "take (Suc k) s = take k s @ [s ! k]"
      using Suc.prems by (simp add: take_Suc_conv_app_nth)
    with ih False show ?thesis by (auto dest: in_set_dropD)
  qed
qed

text \<open>A path without a slash: the store \<^verbatim>\<open>parent[idx] = '\0'\<close> is made with \<open>idx = -1\<close>.\<close>

lemma SplitPath_no_slash: "CHR ''/'' \<notin> set path \<Longrightarrow> SplitPath path = None"
  using lastSlash_none[of "length path" path] by (simp add: SplitPath_def)


lemma SplitPath_Some:
  assumes "SplitPath path = Some (parent, filename)"
  shows "\<exists>p. path = p @ CHR ''/'' # filename \<and> CHR ''/'' \<notin> set filename \<and>
             parent = (if p = [] then ''/'' else p) \<and> length path < 1024"
proof -
  from assms have len: "length path < 1024"
    by (simp add: SplitPath_def split: if_splits)
  from assms len obtain idx where idx: "lastSlash path (length path) = Some idx"
    and par: "parent = (if take idx path = [] then ''/'' else take idx path)"
    and fn: "filename = drop (idx + 1) path"
    by (auto simp: SplitPath_def Let_def split: option.splits if_splits)
  from lastSlash_Some[OF idx] have i: "idx < length path" "path ! idx = CHR ''/''"
    "CHR ''/'' \<notin> set (drop (Suc idx) path)" by simp_all
  have "path = take idx path @ CHR ''/'' # filename"
    using i(1,2) fn id_take_nth_drop[of idx path] by simp
  moreover have "CHR ''/'' \<notin> set filename" using i(3) fn by simp
  ultimately show ?thesis using par len by blast
qed

text \<open>
  C7. The claim: \<^verbatim>\<open>SplitPath\<close> cuts at the last slash, and for a path without a slash,
  such as \<^verbatim>\<open>"foo"\<close>, the parent becomes \<^verbatim>\<open>"/"\<close> and the name is the whole input. For
  \<^verbatim>\<open>"foo"\<close> the loop ends with \<open>idx = -1\<close> and the terminator is stored at
  \<^verbatim>\<open>parent[-1]\<close>, in front of the array: the call has no defined result, and it is not
  the pair of \<^verbatim>\<open>"/"\<close> and \<^verbatim>\<open>"foo"\<close>.
\<close>

theorem SplitPath_foo:
  "SplitPath ''foo'' = None \<and> SplitPath ''foo'' \<noteq> Some (''/'', ''foo'')"
  by (simp add: SplitPath_def)

subsection \<open>The descriptor table\<close>

lemma length_initTable: "length initTable = 20"
  by (simp add: initTable_def)

lemma Close_length: "Close table fileid = Some (r, table') \<Longrightarrow> length table' = length table"
  by (auto simp: Close_def split: if_splits option.splits)

lemma OpenFd_length: "OpenFd d table path = Some (r, table') \<Longrightarrow> length table' = length table"
  by (auto simp: OpenFd_def split: option.splits)

text \<open>
  C8. For a descriptor in [1,20): closing an empty slot returns 0 and changes nothing;
  closing a live slot clears it and returns 1, and closing it once more returns 0.
\<close>

theorem Close_twice:
  assumes "1 \<le> fileid" and "fileid < 20" and "length table = 20"
  shows "(table ! nat fileid = None \<longrightarrow> Close table fileid = Some (0, table)) \<and>
         (table ! nat fileid \<noteq> None \<longrightarrow>
            Close table fileid = Some (1, table[nat fileid := None]) \<and>
            (table[nat fileid := None]) ! nat fileid = None \<and>
            Close (table[nat fileid := None]) fileid = Some (0, table[nat fileid := None]))"
  using assms by (auto simp: Close_def)

theorem Close_twice_witness:
  "Close initTable 3 = Some (0, initTable) \<and>
   Close (initTable[3 := Some (OpenFile 5)]) 3 = Some (1, initTable[3 := None]) \<and>
   Close (initTable[3 := None]) 3 = Some (0, initTable[3 := None])"
proof -
  have l: "length (initTable[3 := Some (OpenFile 5)]) = 20"
    by (simp add: initTable_def)
  have a: "initTable ! nat 3 = None"
    by (simp add: initTable_def)
  have b: "(initTable[3 := Some (OpenFile 5)]) ! nat 3 \<noteq> None"
    by (simp add: initTable_def)
  have c: "(initTable[3 := Some (OpenFile 5)])[nat 3 := None] = initTable[3 := None]"
    by simp
  from Close_twice[of 3 initTable, OF _ _ length_initTable] a
  have 1: "Close initTable 3 = Some (0, initTable)" by simp
  from Close_twice[of 3 "initTable[3 := Some (OpenFile 5)]", OF _ _ l] b c
  have 2: "Close (initTable[3 := Some (OpenFile 5)]) 3 = Some (1, initTable[3 := None]) \<and>
           Close (initTable[3 := None]) 3 = Some (0, initTable[3 := None])" by simp
  from 1 2 show ?thesis by simp
qed

text \<open>
  C10. \<^verbatim>\<open>Write\<close>, \<^verbatim>\<open>Read\<close> and \<^verbatim>\<open>Close\<close> index the table of 20 slots with the descriptor
  as it is given: the access lies in the table exactly for \<open>0 \<le> fileid < 20\<close>, and
  outside that range the call has no defined result.
\<close>

theorem descriptor_index_range:
  assumes "length table = 20"
  shows "(Write io table buffer sz fileid \<noteq> None) = (0 \<le> fileid \<and> fileid < 20) \<and>
         (Read io table buffer sz fileid \<noteq> None) = (0 \<le> fileid \<and> fileid < 20) \<and>
         (Close table fileid \<noteq> None) = (0 \<le> fileid \<and> fileid < 20)"
  using assms by (auto simp: Write_def Read_def Close_def split: option.splits)

theorem descriptor_index_range_witness:
  "Write (\<lambda>f b n. n) initTable ''ab'' 2 20 = None \<and>
   Read (\<lambda>f b n. n) initTable ''ab'' 2 (- 1) = None \<and>
   Close initTable 19 \<noteq> None"
  using descriptor_index_range[OF length_initTable, of "\<lambda>f b n. n" "''ab''" 2 20]
        descriptor_index_range[OF length_initTable, of "\<lambda>f b n. n" "''ab''" 2 "- 1"]
        descriptor_index_range[OF length_initTable, of "\<lambda>f b n. n" "''ab''" 2 19]
  by simp

text \<open>
  What \<open>OpenFd\<close> does: the pointer that \<^verbatim>\<open>Open\<close> returns is stored in the first slot of
  [1,20) that holds \<^verbatim>\<open>NULL\<close>, and the index of the slot is returned; -1 is returned
  when there is no such slot. The pointer is not tested.
\<close>

lemma OpenFd_full:
  "Open d path = Some fp \<Longrightarrow> List.find (\<lambda>i. table ! i = None) [1..<20] = None \<Longrightarrow>
   OpenFd d table path = Some (- 1, table)"
  by (simp add: OpenFd_def)

lemma OpenFd_slot:
  "Open d path = Some fp \<Longrightarrow> List.find (\<lambda>i. table ! i = None) [1..<20] = Some i \<Longrightarrow>
   OpenFd d table path = Some (int i, table[i := fp])"
  by (simp add: OpenFd_def)

lemma find_upt_lowest:
  assumes "List.find P [a..<b] = Some i"
  shows "a \<le> i \<and> i < b \<and> P i \<and> (\<forall>j. a \<le> j \<and> j < i \<longrightarrow> \<not> P j)"
proof -
  from assms[unfolded find_Some_iff] obtain k where k: "k < length [a..<b]" "P ([a..<b] ! k)"
    "i = [a..<b] ! k" "\<forall>j < k. \<not> P ([a..<b] ! j)" by blast
  from k(1,3) have i: "i = a + k" "a + k < b" by simp_all
  have "\<forall>j. a \<le> j \<and> j < i \<longrightarrow> \<not> P j"
  proof (intro allI impI)
    fix j assume j: "a \<le> j \<and> j < i"
    with i have "j - a < k" "a + (j - a) < b" by arith+
    with k(4) have "\<not> P ([a..<b] ! (j - a))" by blast
    with \<open>a + (j - a) < b\<close> j show "\<not> P j" by simp
  qed
  with i k(2) show ?thesis by simp
qed

lemma OpenFd_lowest:
  assumes "OpenFd d table path = Some (r, table')" and "r \<noteq> - 1"
  shows "\<exists>i fp. Open d path = Some fp \<and> r = int i \<and> 1 \<le> i \<and> i < 20 \<and> table ! i = None \<and>
                (\<forall>j. 1 \<le> j \<and> j < i \<longrightarrow> table ! j \<noteq> None) \<and> table' = table[i := fp]"
proof -
  from assms obtain fp i where o: "Open d path = Some fp"
    and f: "List.find (\<lambda>i. table ! i = None) [1..<20] = Some i"
    and r: "r = int i" "table' = table[i := fp]"
    by (auto simp: OpenFd_def split: option.splits)
  from find_upt_lowest[OF f] o r show ?thesis by blast
qed

lemma OpenFd_failed_open:
  assumes "Open d path = Some None" and "OpenFd d table path = Some (r, table')"
  shows "table' = table"
proof (cases "List.find (\<lambda>i. table ! i = None) [1..<20]")
  case None
  with assms show ?thesis by (simp add: OpenFd_def)
next
  case (Some i)
  from find_upt_lowest[OF Some] have "table ! i = None" by simp
  then have "table[i := None] = table" by (metis list_update_id)
  with assms Some show ?thesis by (simp add: OpenFd_def)
qed

text \<open>
  C1. The claim: if opening the file fails, \<open>OpenFd\<close> returns -1. On the formatted
  disk no file \<^verbatim>\<open>/nofile\<close> exists and \<^verbatim>\<open>Open\<close> returns \<^verbatim>\<open>NULL\<close>; with an empty table
  \<open>OpenFd\<close> returns the descriptor 1, whose slot still holds \<^verbatim>\<open>NULL\<close>.
\<close>

theorem OpenFd_missing_file:
  "Option.bind (Format zeroDisk) (\<lambda>d. Open d ''/nofile'') = Some None \<and>
   Option.bind (Format zeroDisk) (\<lambda>d. OpenFd d initTable ''/nofile'') = Some (1, initTable)"
  by code_simp

subsection \<open>The bitmap\<close>

lemma firstClear_Some:
  "firstClear bm i = Some j \<Longrightarrow>
   i \<le> j \<and> j - i < length bm \<and> \<not> bm ! (j - i) \<and> (\<forall>k < j - i. bm ! k)"
proof (induction bm arbitrary: i)
  case Nil
  then show ?case by simp
next
  case (Cons b bs)
  show ?case
  proof (cases b)
    case True
    with Cons.prems have "firstClear bs (Suc i) = Some j" by simp
    from Cons.IH[OF this] have ih: "Suc i \<le> j" "j - Suc i < length bs" "\<not> bs ! (j - Suc i)"
      "\<forall>k < j - Suc i. bs ! k" by simp_all
    from ih(1) have eq: "j - i = Suc (j - Suc i)" by arith
    have "\<forall>k < j - i. (b # bs) ! k"
    proof (intro allI impI)
      fix k assume "k < j - i"
      then show "(b # bs) ! k" using True ih(4) eq by (cases k) auto
    qed
    with ih eq show ?thesis by simp
  next
    case False
    with Cons.prems show ?thesis by simp
  qed
qed

lemma firstClear_None: "firstClear bm i = None \<Longrightarrow> list_all (\<lambda>b. b) bm"
  by (induction bm arbitrary: i) (auto split: if_splits)

lemma FindAndSet_Some:
  assumes "FindAndSet bm = (Some s, bm')"
  shows "s < length bm \<and> \<not> bm ! s \<and> (\<forall>k < s. bm ! k) \<and> bm' = bm[s := True]"
proof -
  from assms have fc: "firstClear bm 0 = Some s" and bm': "bm' = bm[s := True]"
    by (auto simp: FindAndSet_def split: option.splits)
  from firstClear_Some[OF fc] bm' show ?thesis by simp
qed

lemma FindAndSet_None: "FindAndSet bm = (None, bm') \<Longrightarrow> bm' = bm"
  by (auto simp: FindAndSet_def split: option.splits)

lemma FindAndSet_length: "FindAndSet bm = (r, bm') \<Longrightarrow> length bm' = length bm"
  by (auto simp: FindAndSet_def split: option.splits)

lemma findAndSetN_length: "findAndSetN n bm = (r, bm') \<Longrightarrow> length bm' = length bm"
proof (induction n arbitrary: bm r bm')
  case 0
  then show ?case by simp
next
  case (Suc n)
  obtain r1 bm1 where f: "FindAndSet bm = (r1, bm1)" by (cases "FindAndSet bm")
  obtain r2 bm2 where g: "findAndSetN n bm1 = (r2, bm2)" by (cases "findAndSetN n bm1")
  from Suc.prems f g have "bm' = bm1 \<or> bm' = bm2"
    by (auto split: option.splits)
  with FindAndSet_length[OF f] Suc.IH[OF g] show ?case by auto
qed

text \<open>
  The sectors that \<open>findAndSetN\<close> returns were clear, are pairwise different and lie in
  the bitmap; afterwards exactly their bits are set in addition.
\<close>

lemma findAndSetN_Some:
  "findAndSetN n bm = (Some ss, bm') \<Longrightarrow>
   length ss = n \<and> distinct ss \<and> list_all (\<lambda>s. s < length bm \<and> \<not> bm ! s) ss \<and>
   length bm' = length bm \<and> (\<forall>k < length bm. bm' ! k = (bm ! k \<or> k \<in> set ss))"
proof (induction n arbitrary: bm ss bm')
  case 0
  then show ?case by simp
next
  case (Suc n)
  from Suc.prems obtain s bm1 ss1 where f: "FindAndSet bm = (Some s, bm1)"
    and g: "findAndSetN n bm1 = (Some ss1, bm')" and ss: "ss = s # ss1"
    by (auto split: option.splits prod.splits)
  from FindAndSet_Some[OF f] have s: "s < length bm" "\<not> bm ! s" "bm1 = bm[s := True]" by simp_all
  from Suc.IH[OF g] have ih: "length ss1 = n" "distinct ss1"
    "list_all (\<lambda>s. s < length bm1 \<and> \<not> bm1 ! s) ss1" "length bm' = length bm1"
    "\<forall>k < length bm1. bm' ! k = (bm1 ! k \<or> k \<in> set ss1)" by simp_all
  have notin: "s \<notin> set ss1"
  proof
    assume "s \<in> set ss1"
    with ih(3) have "\<not> bm1 ! s" by (simp add: list_all_iff)
    with s show False by simp
  qed
  have fresh: "list_all (\<lambda>s. s < length bm \<and> \<not> bm ! s) ss1"
    unfolding list_all_iff
  proof
    fix x assume x: "x \<in> set ss1"
    with ih(3) have "x < length bm1" "\<not> bm1 ! x" by (simp_all add: list_all_iff)
    with s(3) show "x < length bm \<and> \<not> bm ! x" by (cases "x = s") auto
  qed
  have bits: "\<forall>k < length bm. bm' ! k = (bm ! k \<or> k \<in> set ss)"
  proof (intro allI impI)
    fix k assume "k < length bm"
    with ih(5) s(3) have "bm' ! k = (bm[s := True] ! k \<or> k \<in> set ss1)" by simp
    with \<open>k < length bm\<close> ss show "bm' ! k = (bm ! k \<or> k \<in> set ss)"
      by (cases "k = s") auto
  qed
  from ss ih(1,2,4) notin fresh s bits show ?case by simp
qed

subsection \<open>Allocation and directory tables\<close>

lemma level1Loop_findAndSetN:
  "level1Loop i k bm = Some (ss, True, bm') \<Longrightarrow>
   findAndSetN k bm = (Some ss, bm') \<and> (0 < k \<longrightarrow> i + k \<le> NumDirect)"
proof (induction k arbitrary: i bm ss bm')
  case 0
  then show ?case by simp
next
  case (Suc k)
  obtain r bm1 where f: "FindAndSet bm = (r, bm1)" by (cases "FindAndSet bm")
  from Suc.prems f have i: "i < NumDirect"
    by (auto split: if_splits)
  from Suc.prems f i obtain s where r: "r = Some s"
    by (cases r) auto
  from Suc.prems f i r obtain ss1 where g: "level1Loop (Suc i) k bm1 = Some (ss1, True, bm')"
    and ss: "ss = s # ss1"
    by (auto split: option.splits)
  from Suc.IH[OF g] f r ss i show ?case by (cases k) auto
qed

lemma Allocate_True:
  assumes "Allocate hdr fm sz = (True, h, fm')"
  shows "\<exists>ss. findAndSetN (nat (divRoundUp sz (int SectorSize))) fm = (Some ss, fm') \<and>
              divRoundUp sz (int SectorSize) \<le> int NumDirect \<and>
              h = hdr\<lparr>numBytes := sz, numSectors := divRoundUp sz (int SectorSize),
                      dataSectors := ss @ drop (length ss) (dataSectors hdr)\<rparr>"
  using assms
  by (auto simp: Allocate_def Let_def split: if_splits option.splits prod.splits)

lemma Allocate_length: "Allocate hdr fm sz = (ok, h, fm') \<Longrightarrow> length fm' = length fm"
  by (auto simp: Allocate_def Let_def split: if_splits option.splits prod.splits
           dest: findAndSetN_length)

lemma firstIndex_SomeD:
  "firstIndex P xs i = Some j \<Longrightarrow>
   \<exists>n. j = i + n \<and> n < length xs \<and> P (xs ! n) \<and> (\<forall>k < n. \<not> P (xs ! k))"
proof (induction xs arbitrary: i)
  case Nil
  then show ?case by simp
next
  case (Cons x xs)
  show ?case
  proof (cases "P x")
    case True
    with Cons.prems show ?thesis by (intro exI[of _ 0]) simp
  next
    case False
    with Cons.prems have "firstIndex P xs (Suc i) = Some j" by simp
    from Cons.IH[OF this] obtain n where n: "j = Suc i + n" "n < length xs" "P (xs ! n)"
      "\<forall>k < n. \<not> P (xs ! k)" by blast
    have "\<forall>k < Suc n. \<not> P ((x # xs) ! k)"
    proof (intro allI impI)
      fix k assume "k < Suc n"
      then show "\<not> P ((x # xs) ! k)" using False n(4) by (cases k) auto
    qed
    with n show ?thesis by (intro exI[of _ "Suc n"]) simp
  qed
qed

lemma firstIndex_SomeI:
  "n < length xs \<Longrightarrow> P (xs ! n) \<Longrightarrow> (\<forall>k < n. \<not> P (xs ! k)) \<Longrightarrow>
   firstIndex P xs i = Some (i + n)"
proof (induction xs arbitrary: i n)
  case Nil
  then show ?case by simp
next
  case (Cons x xs)
  show ?case
  proof (cases n)
    case 0
    with Cons.prems show ?thesis by simp
  next
    case (Suc m)
    with Cons.prems have "m < length xs" "P (xs ! m)" "\<forall>k < m. \<not> P (xs ! k)" "\<not> P x"
      by auto
    with Cons.IH[of m "Suc i"] Suc show ?thesis by simp
  qed
qed

lemma firstIndex_None: "(firstIndex P xs i = None) = (\<forall>x \<in> set xs. \<not> P x)"
  by (induction xs arbitrary: i) auto

lemma FindIndex_Some:
  "FindIndex table nm = Some i \<Longrightarrow>
   i < length table \<and> matches nm (table ! i) \<and> (\<forall>k < i. \<not> matches nm (table ! k))"
  by (auto simp: FindIndex_def dest!: firstIndex_SomeD)

lemma Find_FindIndex:
  "Find table nm = Some s \<Longrightarrow> \<exists>i. FindIndex table nm = Some i \<and> s = sector (table ! i)"
  by (auto simp: Find_def split: option.splits)

lemma Find_None: "(Find table nm = None) = (FindIndex table nm = None)"
  by (auto simp: Find_def split: option.splits)

lemma addEntry_Some:
  assumes "addEntry isDir table nm sec = Some table'"
  shows "\<exists>i. i < length table \<and> \<not> inUse (table ! i) \<and>
             table' = table[i := \<lparr>inUse = True, type = isDir, sector = sec,
                                  name = take FileNameMaxLen nm\<rparr>] \<and>
             FindIndex table' nm = Some i"
proof -
  from assms have none: "FindIndex table nm = None"
    by (auto simp: addEntry_def split: option.splits)
  from assms none obtain i where fi: "firstIndex (\<lambda>e. \<not> inUse e) table 0 = Some i"
    and t': "table' = table[i := \<lparr>inUse = True, type = isDir, sector = sec,
                                  name = take FileNameMaxLen nm\<rparr>]"
    by (auto simp: addEntry_def split: option.splits)
  from firstIndex_SomeD[OF fi] have i: "i < length table" "\<not> inUse (table ! i)" by auto
  from none have nomatch: "\<forall>x \<in> set table. \<not> matches nm x"
    by (simp add: FindIndex_def firstIndex_None)
  have "firstIndex (matches nm) table' 0 = Some (0 + i)"
  proof (rule firstIndex_SomeI)
    show "i < length table'" using i t' by simp
    show "matches nm (table' ! i)" using i t' by (simp add: matches_def)
    show "\<forall>k < i. \<not> matches nm (table' ! k)"
    proof (intro allI impI)
      fix k assume "k < i"
      with i t' have "table' ! k = table ! k" "table ! k \<in> set table" by simp_all
      with nomatch show "\<not> matches nm (table' ! k)" by simp
    qed
  qed
  with i t' show ?thesis by (simp add: FindIndex_def)
qed

lemma Add_Find:
  assumes "Add table nm sec = Some table'"
  shows "Find table' nm = Some sec"
proof -
  from addEntry_Some[of False table nm sec table'] assms
  obtain i where "i < length table" "FindIndex table' nm = Some i"
    "table' = table[i := \<lparr>inUse = True, type = False, sector = sec,
                         name = take FileNameMaxLen nm\<rparr>]"
    by (auto simp: Add_def)
  then show ?thesis by (simp add: Find_def)
qed

subsection \<open>Rounding up\<close>

lemma divRoundUp_bounds:
  assumes "0 < s"
  shows "(divRoundUp r s - 1) * s < r \<and> r \<le> divRoundUp r s * s"
proof -
  define q where "q = (- r) div s"
  define m where "m = (- r) mod s"
  have e: "- r = q * s + m" unfolding q_def m_def by simp
  have m: "0 \<le> m" "m < s" using assms by (simp_all add: m_def)
  have d: "divRoundUp r s = - q" by (simp add: divRoundUp_def q_def)
  have "(- q - 1) * s = - (q * s) - s" by (simp add: algebra_simps)
  moreover have "(- q) * s = - (q * s)" by simp
  ultimately show ?thesis using e m unfolding d by linarith
qed

lemma divRoundUp_unique:
  assumes "0 < s" "(q - 1) * s < r" "r \<le> q * s"
  shows "divRoundUp r s = q"
proof -
  let ?c = "divRoundUp r s"
  from divRoundUp_bounds[OF assms(1), of r] have b: "(?c - 1) * s < r" "r \<le> ?c * s" by simp_all
  from b(1) assms(3) have "(?c - 1) * s < q * s" by linarith
  with assms(1) have 1: "?c - 1 < q" by (simp add: mult_less_cancel_right)
  from assms(2) b(2) have "(q - 1) * s < ?c * s" by linarith
  with assms(1) have 2: "q - 1 < ?c" by (simp add: mult_less_cancel_right)
  from 1 2 show ?thesis by linarith
qed

lemma divRoundUp_nonpos: "r \<le> 0 \<Longrightarrow> 0 < s \<Longrightarrow> divRoundUp r s \<le> 0"
proof -
  assume a: "r \<le> 0" "0 < s"
  from divRoundUp_bounds[OF a(2), of r] a(1) have "(divRoundUp r s - 1) * s < 0" by linarith
  with a(2) have "divRoundUp r s - 1 < 0" by (simp add: mult_less_0_iff)
  then show ?thesis by simp
qed

lemma divRoundUp_small: "0 < r \<Longrightarrow> r \<le> s \<Longrightarrow> divRoundUp r s = 1"
  by (rule divRoundUp_unique) simp_all

lemma divRoundUp_step: "0 < s \<Longrightarrow> divRoundUp r s = 1 + divRoundUp (r - s) s"
proof -
  assume a: "0 < s"
  from divRoundUp_bounds[OF a, of "r - s"]
  have "(divRoundUp (r - s) s - 1) * s < r - s" "r - s \<le> divRoundUp (r - s) s * s" by simp_all
  then have "(1 + divRoundUp (r - s) s - 1) * s < r" "r \<le> (1 + divRoundUp (r - s) s) * s"
    by (simp_all add: algebra_simps)
  with a show ?thesis by (intro divRoundUp_unique) simp_all
qed

lemma divRoundUp_pos: "0 < r \<Longrightarrow> 0 < s \<Longrightarrow> 0 < divRoundUp r s"
proof -
  assume a: "0 < r" "0 < s"
  from divRoundUp_bounds[OF a(2), of r] a(1) have "0 < divRoundUp r s * s" by linarith
  with a(2) show ?thesis by (simp add: zero_less_mult_iff)
qed

lemma divRoundUp_large: "s < r \<Longrightarrow> 0 < s \<Longrightarrow> 1 < divRoundUp r s"
  using divRoundUp_step[of s r] divRoundUp_pos[of "r - s" s] by simp

subsection \<open>The loops of Create\<close>

lemma dataLoop_success:
  "dataLoop r idx hs fm b = Some (hs', fm', True) \<Longrightarrow> b"
proof (induction r idx hs fm b rule: dataLoop.induct)
  case (1 r idx hs fm b)
  show ?case
  proof (cases "0 < r")
    case False
    with "1.prems" show ?thesis by simp
  next
    case True
    define t where "t = (if r \<ge> int (NumDirect * SectorSize) then int (NumDirect * SectorSize) else r)"
    from True "1.prems" have idx: "\<not> length hs \<le> idx"
      by (auto simp: Let_def split: if_splits)
    obtain ok h fm1 where al: "Allocate ((hs ! idx)\<lparr>level := 1\<rparr>) fm t = (ok, h, fm1)"
      by (cases "Allocate ((hs ! idx)\<lparr>level := 1\<rparr>) fm t") auto
    from True idx al "1.prems" have
      rec: "dataLoop (r - t) (Suc idx) (hs[idx := h]) fm1 (b \<and> ok) = Some (hs', fm', True)"
      by (simp add: Let_def t_def)
    from "1.IH"[OF True t_def idx al[symmetric] refl rec] show ?thesis by simp
  qed
qed


lemma full_pos: "0 < int (NumDirect * SectorSize)"
  by (simp add: NumDirect_def SectorSize_def)

lemma dataLoop_headers:
  "dataLoop r idx hs fm b = Some (hs', fm', True) \<Longrightarrow>
   length hs' = length hs \<and> (\<forall>j < idx. hs' ! j = hs ! j) \<and>
   (\<forall>j. idx \<le> j \<and> int j < int idx + divRoundUp r (int (NumDirect * SectorSize)) \<longrightarrow>
      level (hs' ! j) = 1 \<and>
      numBytes (hs' ! j) =
        (if int j - int idx < divRoundUp r (int (NumDirect * SectorSize)) - 1
         then int (NumDirect * SectorSize)
         else r - (divRoundUp r (int (NumDirect * SectorSize)) - 1) * int (NumDirect * SectorSize)))"
proof (induction r idx hs fm b rule: dataLoop.induct)
  case (1 r idx hs fm b)
  let ?F = "int (NumDirect * SectorSize)"
  let ?L = "divRoundUp r ?F"
  show ?case
  proof (cases "0 < r")
    case False
    with "1.prems" have "hs' = hs" by simp
    moreover from False have "?L \<le> 0" using divRoundUp_nonpos[OF _ full_pos, of r] by simp
    ultimately show ?thesis by auto
  next
    case True
    define t where "t = (if r \<ge> ?F then ?F else r)"
    from True "1.prems" have idx: "\<not> length hs \<le> idx"
      by (auto simp: Let_def split: if_splits)
    obtain ok h fm1 where al: "Allocate ((hs ! idx)\<lparr>level := 1\<rparr>) fm t = (ok, h, fm1)"
      by (cases "Allocate ((hs ! idx)\<lparr>level := 1\<rparr>) fm t") auto
    from True idx al "1.prems" have
      rec: "dataLoop (r - t) (Suc idx) (hs[idx := h]) fm1 (b \<and> ok) = Some (hs', fm', True)"
      by (simp add: Let_def t_def)
    from dataLoop_success[OF rec] have ok: ok by simp
    from Allocate_True[of "(hs ! idx)\<lparr>level := 1\<rparr>" fm t h fm1] al ok
    have h: "level h = 1" "numBytes h = t" by auto
    from "1.IH"[OF True t_def idx al[symmetric] refl rec]
    have ih1: "length hs' = length (hs[idx := h])"
      and ih2: "\<forall>j < Suc idx. hs' ! j = hs[idx := h] ! j"
      and ih3: "\<forall>j. Suc idx \<le> j \<and> int j < int (Suc idx) + divRoundUp (r - t) ?F \<longrightarrow>
          level (hs' ! j) = 1 \<and>
          numBytes (hs' ! j) =
            (if int j - int (Suc idx) < divRoundUp (r - t) ?F - 1 then ?F
             else r - t - (divRoundUp (r - t) ?F - 1) * ?F)"
      by simp_all
    from idx ih2 have at: "hs' ! idx = h" by simp
    from ih2 have before: "\<forall>j < idx. hs' ! j = hs ! j" by simp
    have range: "\<forall>j. idx \<le> j \<and> int j < int idx + ?L \<longrightarrow>
        level (hs' ! j) = 1 \<and>
        numBytes (hs' ! j) = (if int j - int idx < ?L - 1 then ?F else r - (?L - 1) * ?F)"
    proof (intro allI impI)
      fix j
      assume j: "idx \<le> j \<and> int j < int idx + ?L"
      show "level (hs' ! j) = 1 \<and>
            numBytes (hs' ! j) = (if int j - int idx < ?L - 1 then ?F else r - (?L - 1) * ?F)"
      proof (cases "?F < r")
        case big: True
        then have t: "t = ?F" by (simp add: t_def)
        from big have L: "1 < ?L" by (rule divRoundUp_large[OF _ full_pos])
        have L': "divRoundUp (r - ?F) ?F = ?L - 1"
          using divRoundUp_step[OF full_pos, of r] by simp
        show ?thesis
        proof (cases "j = idx")
          case True
          with at h t L show ?thesis by simp
        next
          case False
          with j have jr: "Suc idx \<le> j \<and> int j < int (Suc idx) + (?L - 1)"
            by simp
          from ih3[unfolded t L'] jr have lv: "level (hs' ! j) = 1"
            and nb: "numBytes (hs' ! j) =
              (if int j - int (Suc idx) < ?L - 1 - 1 then ?F
               else r - ?F - (?L - 1 - 1) * ?F)" by blast+
          have c: "(int j - int (Suc idx) < ?L - 1 - 1) = (int j - int idx < ?L - 1)"
            by auto
          have v: "r - ?F - (?L - 1 - 1) * ?F = r - (?L - 1) * ?F"
            by (simp add: algebra_simps)
          from nb have "numBytes (hs' ! j) = (if int j - int idx < ?L - 1 then ?F else r - (?L - 1) * ?F)"
            unfolding c v .
          with lv show ?thesis by blast
        qed
      next
        case small: False
        with True have L: "?L = 1" by (intro divRoundUp_small) simp_all
        from small True have t: "t = r" by (auto simp: t_def)
        from j L have "j = idx" by simp
        with at h t L show ?thesis by simp
      qed
    qed
    from ih1 before range show ?thesis by simp
  qed
qed

lemma dataLoop_numSectors:
  "dataLoop r idx hs fm b = Some (hs', fm', True) \<Longrightarrow>
   (\<forall>j. idx \<le> j \<and> int j < int idx + divRoundUp r (int (NumDirect * SectorSize)) \<longrightarrow>
      numSectors (hs' ! j) = divRoundUp (numBytes (hs' ! j)) (int SectorSize))"
proof (induction r idx hs fm b rule: dataLoop.induct)
  case (1 r idx hs fm b)
  let ?F = "int (NumDirect * SectorSize)"
  let ?L = "divRoundUp r ?F"
  show ?case
  proof (cases "0 < r")
    case False
    then have "?L \<le> 0" using divRoundUp_nonpos[OF _ full_pos, of r] by simp
    then show ?thesis by auto
  next
    case True
    define t where "t = (if r \<ge> ?F then ?F else r)"
    from True "1.prems" have idx: "\<not> length hs \<le> idx"
      by (auto simp: Let_def split: if_splits)
    obtain ok h fm1 where al: "Allocate ((hs ! idx)\<lparr>level := 1\<rparr>) fm t = (ok, h, fm1)"
      by (cases "Allocate ((hs ! idx)\<lparr>level := 1\<rparr>) fm t") auto
    from True idx al "1.prems" have
      rec: "dataLoop (r - t) (Suc idx) (hs[idx := h]) fm1 (b \<and> ok) = Some (hs', fm', True)"
      by (simp add: Let_def t_def)
    from dataLoop_success[OF rec] have ok: ok by simp
    from Allocate_True[of "(hs ! idx)\<lparr>level := 1\<rparr>" fm t h fm1] al ok
    have h: "numSectors h = divRoundUp (numBytes h) (int SectorSize)" by auto
    from "1.IH"[OF True t_def idx al[symmetric] refl rec]
    have ih: "\<forall>j. Suc idx \<le> j \<and> int j < int (Suc idx) + divRoundUp (r - t) ?F \<longrightarrow>
          numSectors (hs' ! j) = divRoundUp (numBytes (hs' ! j)) (int SectorSize)" .
    from dataLoop_headers[OF rec] idx have at: "hs' ! idx = h" by simp
    have L: "?L = 1 + divRoundUp (r - t) ?F"
    proof (cases "?F \<le> r")
      case True
      then show ?thesis using divRoundUp_step[OF full_pos, of r] by (simp add: t_def)
    next
      case False
      with \<open>0 < r\<close> have "?L = 1" by (intro divRoundUp_small) simp_all
      moreover from False have "divRoundUp (r - t) ?F = 0" by (simp add: t_def divRoundUp_def)
      ultimately show ?thesis by simp
    qed
    show ?thesis
    proof (intro allI impI)
      fix j assume j: "idx \<le> j \<and> int j < int idx + ?L"
      show "numSectors (hs' ! j) = divRoundUp (numBytes (hs' ! j)) (int SectorSize)"
      proof (cases "j = idx")
        case True
        with at h show ?thesis by simp
      next
        case False
        with j L have "Suc idx \<le> j \<and> int j < int (Suc idx) + divRoundUp (r - t) ?F"
          by linarith
        with ih show ?thesis by blast
      qed
    qed
  qed
qed

lemma writeLevel1_other:
  "s \<notin> set (take n ss) \<Longrightarrow> n \<le> length ss \<Longrightarrow> writeLevel1 ss hs n f s = f s"
proof (induction n)
  case 0
  then show ?case by (simp add: writeLevel1_def)
next
  case (Suc n)
  then have "take (Suc n) ss = take n ss @ [ss ! n]"
    by (simp add: take_Suc_conv_app_nth)
  with Suc show ?case by (simp add: writeLevel1_def)
qed

lemma writeLevel1_nth:
  "distinct (take n ss) \<Longrightarrow> n \<le> length ss \<Longrightarrow> i < n \<Longrightarrow>
   writeLevel1 ss hs n f (ss ! i) = hs ! i"
proof (induction n)
  case 0
  then show ?case by simp
next
  case (Suc n)
  then have tk: "take (Suc n) ss = take n ss @ [ss ! n]"
    by (simp add: take_Suc_conv_app_nth)
  have step: "writeLevel1 ss hs (Suc n) f = (writeLevel1 ss hs n f)(ss ! n := hs ! n)"
    by (simp add: writeLevel1_def)
  show ?case
  proof (cases "i = n")
    case True
    then show ?thesis by (simp add: step)
  next
    case False
    with Suc.prems have i: "i < n" by simp
    with Suc.prems have "ss ! i \<in> set (take n ss)"
      by (metis Suc_leD in_set_conv_nth length_take min.absorb2 nth_take)
    with Suc.prems(1) tk have "ss ! i \<noteq> ss ! n" by auto
    moreover from Suc.prems tk i have "writeLevel1 ss hs n f (ss ! i) = hs ! i"
      by (intro Suc.IH) simp_all
    ultimately show ?thesis by (simp add: step)
  qed
qed

declare dataLoop.simps [simp del]

lemma Create_TrueD:
  assumes "Create d path initialSize = Some (True, d')"
  shows "\<exists>parent filename dirF hdrSec freeMap1 level1Sector freeMap2 directory' level1Hdr freeMap3.
     SplitPath path = Some (parent, filename) \<and>
     OpenDir d parent = Some (Some dirF) \<and>
     Find (dirFile d (hdrSector dirF)) filename = None \<and>
     FindAndSet (freeMapFile d) = (Some hdrSec, freeMap1) \<and>
     level1Loop 0 (nat (divRoundUp initialSize (int (SectorSize * NumDirect)))) freeMap1 =
       Some (level1Sector, True, freeMap2) \<and>
     Add (dirFile d (hdrSector dirF)) filename hdrSec = Some directory' \<and>
     dataLoop initialSize 0 (replicate NumDirect newFileHeader) freeMap2 True =
       Some (level1Hdr, freeMap3, True) \<and>
     d' = d\<lparr>headers :=
             writeLevel1 level1Sector level1Hdr
               (nat (divRoundUp initialSize (int (SectorSize * NumDirect))))
               ((headers d)
                 (hdrSec := newFileHeader
                    \<lparr>numBytes := initialSize,
                     numSectors := divRoundUp initialSize (int (SectorSize * NumDirect)),
                     level := 0,
                     dataSectors := level1Sector @
                       drop (length level1Sector) (dataSectors newFileHeader)\<rparr>)),
           freeMapFile := freeMap3,
           dirFile := (dirFile d)(hdrSector dirF := directory')\<rparr>"
proof -
  define L where "L = divRoundUp initialSize (int (SectorSize * NumDirect))"
  note c = assms[unfolded Create_def Let_def, folded L_def]
  obtain parent filename where sp: "SplitPath path = Some (parent, filename)"
    using c by (cases "SplitPath path") auto
  note c = c[unfolded sp, simplified]
  obtain dirF where od: "OpenDir d parent = Some (Some dirF)"
    using c by (cases "OpenDir d parent") (auto split: option.splits)
  note c = c[unfolded od, simplified]
  have fn: "Find (dirFile d (hdrSector dirF)) filename = None"
    using c by (cases "Find (dirFile d (hdrSector dirF)) filename") auto
  note c = c[unfolded fn, simplified]
  obtain sec freeMap1 where fs: "FindAndSet (freeMapFile d) = (sec, freeMap1)"
    by (cases "FindAndSet (freeMapFile d)")
  note c = c[unfolded fs, simplified]
  obtain level1Sector level1Flag freeMap2 where
    l1: "level1Loop 0 (nat L) freeMap1 = Some (level1Sector, level1Flag, freeMap2)"
    using c by (cases "level1Loop 0 (nat L) freeMap1") auto
  note c = c[unfolded l1, simplified]
  obtain hdrSec where sec: "sec = Some hdrSec"
    using c by (cases sec) auto
  note c = c[unfolded sec, simplified]
  have flag: "level1Flag = True"
    using c by (cases level1Flag) auto
  note c = c[unfolded flag, simplified]
  obtain directory' where ad: "Add (dirFile d (hdrSector dirF)) filename hdrSec = Some directory'"
    using c by (cases "Add (dirFile d (hdrSector dirF)) filename hdrSec") auto
  note c = c[unfolded ad, simplified]
  obtain level1Hdr freeMap3 success where
    dl: "dataLoop initialSize 0 (replicate NumDirect newFileHeader) freeMap2 True =
           Some (level1Hdr, freeMap3, success)"
    using c
    by (cases "dataLoop initialSize 0 (replicate NumDirect newFileHeader) freeMap2 True") auto
  note c = c[unfolded dl, simplified]
  have su: "success = True"
    using c by (cases success) auto
  note c = c[unfolded su, simplified]
  from sp od fn fs[unfolded sec] l1[unfolded flag] ad dl[unfolded su] c[symmetric]
  show ?thesis unfolding L_def by blast
qed

text \<open>
  C2. If \<^verbatim>\<open>Create\<close> returns \<^verbatim>\<open>FALSE\<close>, whatever the reason, the disk is the one it was
  called on: neither the bitmap file nor the file of the parent directory (nor any
  other directory file) differs from its contents before the call.
\<close>

theorem Create_failure_atomic:
  assumes "Create d path initialSize = Some (False, d')"
  shows "d' = d \<and> freeMapFile d' = freeMapFile d \<and> dirFile d' = dirFile d"
proof -
  from assms have "d' = d"
    by (auto simp: Create_def Let_def split: option.splits prod.splits if_splits)
  then show ?thesis by simp
qed

lemma Create_formatted: "map_option fst (Create formatted ''/a'' 100) = Some True"
  by code_simp

lemma Create_diskWithFile: "Create formatted ''/a'' 100 = Some (True, diskWithFile)"
  using Create_formatted
  by (cases "Create formatted ''/a'' 100") (auto simp: diskWithFile_def)

lemma Create_again: "map_option fst (Create diskWithFile ''/a'' 100) = Some False"
  by code_simp

theorem Create_failure_atomic_witness:
  "Create diskWithFile ''/a'' 100 = Some (False, diskWithFile)"
proof -
  obtain d' where c: "Create diskWithFile ''/a'' 100 = Some (False, d')"
    using Create_again by (cases "Create diskWithFile ''/a'' 100") auto
  from Create_failure_atomic[OF c] c show ?thesis by simp
qed

lemma Create_headers:
  assumes "Create d path initialSize = Some (True, d')"
  shows "\<exists>parent filename dirF hdrSec level1Sector freeMap1 freeMap2.
     SplitPath path = Some (parent, filename) \<and>
     OpenDir d parent = Some (Some dirF) \<and>
     FindAndSet (freeMapFile d) = (Some hdrSec, freeMap1) \<and>
     findAndSetN (nat (divRoundUp initialSize (int (SectorSize * NumDirect)))) freeMap1 =
       (Some level1Sector, freeMap2) \<and>
     Find (dirFile d' (hdrSector dirF)) filename = Some hdrSec \<and>
     level (headers d' hdrSec) = 0 \<and>
     numBytes (headers d' hdrSec) = initialSize \<and>
     numSectors (headers d' hdrSec) = divRoundUp initialSize (int (SectorSize * NumDirect)) \<and>
     take (nat (divRoundUp initialSize (int (SectorSize * NumDirect))))
       (dataSectors (headers d' hdrSec)) = level1Sector \<and>
     (\<forall>i < nat (divRoundUp initialSize (int (SectorSize * NumDirect))).
        level (headers d' (level1Sector ! i)) = 1 \<and>
        numSectors (headers d' (level1Sector ! i)) =
          divRoundUp (numBytes (headers d' (level1Sector ! i))) (int SectorSize) \<and>
        numBytes (headers d' (level1Sector ! i)) =
          (if int i < divRoundUp initialSize (int (SectorSize * NumDirect)) - 1
           then int (NumDirect * SectorSize)
           else initialSize -
                (divRoundUp initialSize (int (SectorSize * NumDirect)) - 1) *
                int (NumDirect * SectorSize)))"
proof -
  define L where "L = divRoundUp initialSize (int (SectorSize * NumDirect))"
  have L2: "divRoundUp initialSize (int (NumDirect * SectorSize)) = L"
    by (simp add: L_def mult.commute)
  define hdr where "hdr = (\<lambda>level1Sector. newFileHeader
                    \<lparr>numBytes := initialSize, numSectors := L, level := 0,
                     dataSectors := level1Sector @
                       drop (length level1Sector) (dataSectors newFileHeader)\<rparr>)"
  from Create_TrueD[OF assms, folded L_def] obtain parent filename dirF hdrSec freeMap1
    level1Sector freeMap2 directory' level1Hdr freeMap3
    where sp: "SplitPath path = Some (parent, filename)"
      and od: "OpenDir d parent = Some (Some dirF)"
      and fs: "FindAndSet (freeMapFile d) = (Some hdrSec, freeMap1)"
      and l1: "level1Loop 0 (nat L) freeMap1 = Some (level1Sector, True, freeMap2)"
      and ad: "Add (dirFile d (hdrSector dirF)) filename hdrSec = Some directory'"
      and dl: "dataLoop initialSize 0 (replicate NumDirect newFileHeader) freeMap2 True =
                 Some (level1Hdr, freeMap3, True)"
      and d': "d' = d\<lparr>headers :=
                 writeLevel1 level1Sector level1Hdr (nat L) ((headers d)(hdrSec := hdr level1Sector)),
               freeMapFile := freeMap3,
               dirFile := (dirFile d)(hdrSector dirF := directory')\<rparr>"
    unfolding hdr_def by blast
  from level1Loop_findAndSetN[OF l1]
  have fn: "findAndSetN (nat L) freeMap1 = (Some level1Sector, freeMap2)" by simp
  from findAndSetN_Some[OF fn]
  have len: "length level1Sector = nat L" and dist: "distinct level1Sector"
    and fresh: "list_all (\<lambda>s. s < length freeMap1 \<and> \<not> freeMap1 ! s) level1Sector"
    by simp_all
  from FindAndSet_Some[OF fs] have "hdrSec < length (freeMapFile d)"
    "freeMap1 = (freeMapFile d)[hdrSec := True]" by simp_all
  then have "freeMap1 ! hdrSec" by simp
  with fresh have notin: "hdrSec \<notin> set level1Sector"
    by (auto simp: list_all_iff)
  have root: "headers d' hdrSec = hdr level1Sector"
    using notin len by (simp add: d' writeLevel1_other)
  have child: "\<forall>i < nat L. headers d' (level1Sector ! i) = level1Hdr ! i"
    using dist len by (simp add: d' writeLevel1_nth)
  from dataLoop_headers[OF dl, unfolded L2]
  have hs: "\<forall>j. 0 \<le> j \<and> int j < int 0 + L \<longrightarrow>
      level (level1Hdr ! j) = 1 \<and>
      numBytes (level1Hdr ! j) =
        (if int j - int 0 < L - 1 then int (NumDirect * SectorSize)
         else initialSize - (L - 1) * int (NumDirect * SectorSize))"
    by blast
  from dataLoop_numSectors[OF dl, unfolded L2]
  have ns: "\<forall>j. 0 \<le> j \<and> int j < int 0 + L \<longrightarrow>
      numSectors (level1Hdr ! j) = divRoundUp (numBytes (level1Hdr ! j)) (int SectorSize)" .
  have children: "\<forall>i < nat L.
      level (headers d' (level1Sector ! i)) = 1 \<and>
      numSectors (headers d' (level1Sector ! i)) =
        divRoundUp (numBytes (headers d' (level1Sector ! i))) (int SectorSize) \<and>
      numBytes (headers d' (level1Sector ! i)) =
        (if int i < L - 1 then int (NumDirect * SectorSize)
         else initialSize - (L - 1) * int (NumDirect * SectorSize))"
  proof (intro allI impI)
    fix i assume i: "i < nat L"
    then have "0 \<le> i \<and> int i < int 0 + L" by simp
    with hs ns have "level (level1Hdr ! i) = 1 \<and>
      numSectors (level1Hdr ! i) = divRoundUp (numBytes (level1Hdr ! i)) (int SectorSize) \<and>
      numBytes (level1Hdr ! i) =
        (if int i - int 0 < L - 1 then int (NumDirect * SectorSize)
         else initialSize - (L - 1) * int (NumDirect * SectorSize))" by blast
    with child i show "level (headers d' (level1Sector ! i)) = 1 \<and>
      numSectors (headers d' (level1Sector ! i)) =
        divRoundUp (numBytes (headers d' (level1Sector ! i))) (int SectorSize) \<and>
      numBytes (headers d' (level1Sector ! i)) =
        (if int i < L - 1 then int (NumDirect * SectorSize)
         else initialSize - (L - 1) * int (NumDirect * SectorSize))" by simp
  qed
  have find: "Find (dirFile d' (hdrSector dirF)) filename = Some hdrSec"
    using Add_Find[OF ad] by (simp add: d')
  have "level (headers d' hdrSec) = 0" "numBytes (headers d' hdrSec) = initialSize"
    "numSectors (headers d' hdrSec) = L"
    "take (nat L) (dataSectors (headers d' hdrSec)) = level1Sector"
    using len by (simp_all add: root hdr_def)
  with sp od fs fn find children show ?thesis
    unfolding L_def by blast
qed

subsection \<open>Freeing the sectors of a file\<close>

lemma count_list_distinct:
  "distinct xs \<Longrightarrow> count_list xs s = (if s \<in> set xs then 1 else 0)"
  by (induction xs) auto

lemma clearAll_append:
  "clearAll (xs @ ys) m = (case clearAll xs m of None \<Rightarrow> None | Some m' \<Rightarrow> clearAll ys m')"
  by (induction xs arbitrary: m) (auto split: option.splits)

lemma clearAll_Some:
  "list_all (\<lambda>s. s < length bm) ss \<Longrightarrow>
   \<exists>bm'. clearAll ss (bm, cl) = Some (bm', cl @ ss) \<and> length bm' = length bm \<and>
         (\<forall>k < length bm. bm' ! k = (bm ! k \<and> k \<notin> set ss))"
proof (induction ss arbitrary: bm cl)
  case Nil
  then show ?case by simp
next
  case (Cons s ss)
  then have s: "s < length bm" and rest: "list_all (\<lambda>x. x < length (bm[s := False])) ss"
    by simp_all
  from Cons.IH[OF rest, of "cl @ [s]"] obtain bm' where
    bm': "clearAll ss (bm[s := False], cl @ [s]) = Some (bm', cl @ s # ss)"
    "length bm' = length bm" "\<forall>k < length bm. bm' ! k = (bm[s := False] ! k \<and> k \<notin> set ss)"
    by auto
  have "\<forall>k < length bm. bm' ! k = (bm ! k \<and> k \<notin> set (s # ss))"
  proof (intro allI impI)
    fix k assume k: "k < length bm"
    with bm'(3) have "bm' ! k = (bm[s := False] ! k \<and> k \<notin> set ss)" by simp
    with k show "bm' ! k = (bm ! k \<and> k \<notin> set (s # ss))" by (cases "k = s") auto
  qed
  with s bm' show ?case by (simp add: Clear_def)
qed

lemma clearAll_SomeD: "clearAll ss (bm, cl) = Some m' \<Longrightarrow> list_all (\<lambda>s. s < length bm) ss"
proof (induction ss arbitrary: bm cl)
  case Nil
  then show ?case by simp
next
  case (Cons s ss)
  from Cons.prems have s: "s < length bm"
    and r: "clearAll ss (bm[s := False], cl @ [s]) = Some m'"
    by (auto simp: Clear_def split: if_splits)
  from Cons.IH[OF r] s show ?case by simp
qed

lemma Deallocate_listed:
  "numSectors (headers d s) \<le> int (length (dataSectors (headers d s))) \<Longrightarrow>
   Deallocate (headers d s) m = clearAll (listed d s) m"
  by (simp add: Deallocate_def listed_def hdrListed_def)

lemma deallocateChildren_clearAll:
  "list_all (\<lambda>s. numSectors (headers d s) \<le> int (length (dataSectors (headers d s)))) ss \<Longrightarrow>
   deallocateChildren d ss m = clearAll (concat (map (listed d) ss)) m"
proof (induction ss arbitrary: m)
  case Nil
  then show ?case by simp
next
  case (Cons s ss)
  then show ?case
    by (auto simp: Deallocate_listed clearAll_append split: option.splits)
qed

text \<open>
  For a well-formed file of level 0 the tail of \<^verbatim>\<open>Remove\<close> makes the calls of \<open>Clear\<close>
  of \<open>clearAll (ownedSectors d sec)\<close>, starting from a bitmap on which none was made.
\<close>

lemma releaseFile_clearAll:
  assumes "level (headers d sec) = 0" and "wellFormedFile d sec" and that: "headers d1 = headers d"
  shows "releaseFile d1 dirSec directory filename sec (headers d sec) bm =
         (case clearAll (ownedSectors d sec) (bm, []) of
            None \<Rightarrow> None
          | Some (bm', cleared) \<Rightarrow>
              Some (d1\<lparr>freeMapFile := bm',
                      dirFile := (dirFile d1)(dirSec := DirectoryRemove directory filename)\<rparr>,
                    cleared))"
proof -
  from assms(2) have a: "numSectors (headers d sec) \<le> int (length (dataSectors (headers d sec)))"
    and b: "list_all (\<lambda>s. numSectors (headers d s) \<le> int (length (dataSectors (headers d s))))
              (listed d sec)"
    by (simp_all add: wellFormedFile_def)
  have l: "listed d1 = listed d" using that by (simp add: listed_def hdrListed_def fun_eq_iff)
  from b that have b1: "list_all (\<lambda>s. numSectors (headers d1 s) \<le> int (length (dataSectors (headers d1 s))))
              (listed d sec)" by simp
  have 1: "\<And>m. deallocateLevel1 d1 (headers d sec) m =
           clearAll (concat (map (listed d) (listed d sec))) m"
    using assms(1) a deallocateChildren_clearAll[OF b1] l
    by (simp add: deallocateLevel1_def listed_def hdrListed_def)
  have 2: "\<And>m. Deallocate (headers d sec) m = clearAll (listed d sec) m"
    using a by (rule Deallocate_listed)
  show ?thesis
    by (simp add: releaseFile_def 1 2 ownedSectors_def clearAll_append split: option.splits)
qed

lemma releaseFile_owned:
  assumes "level (headers d sec) = 0" and "wellFormedFile d sec" and that: "headers d1 = headers d"
      and "length bm = length (freeMapFile d)"
  shows "\<exists>bm'. releaseFile d1 dirSec directory filename sec (headers d sec) bm =
                  Some (d1\<lparr>freeMapFile := bm',
                          dirFile := (dirFile d1)(dirSec := DirectoryRemove directory filename)\<rparr>,
                        ownedSectors d sec) \<and>
               length bm' = length bm \<and>
               (\<forall>k < length bm. bm' ! k = (bm ! k \<and> k \<notin> set (ownedSectors d sec)))"
proof -
  from assms(2,4) have inr: "list_all (\<lambda>s. s < length bm) (ownedSectors d sec)"
    by (simp add: wellFormedFile_def)
  from clearAll_Some[OF inr, of "[]"] obtain bm' where
    bm': "clearAll (ownedSectors d sec) (bm, []) = Some (bm', ownedSectors d sec)"
    and len: "length bm' = length bm"
    and bits: "\<forall>k < length bm. bm' ! k = (bm ! k \<and> k \<notin> set (ownedSectors d sec))"
    by auto
  show ?thesis
    using releaseFile_clearAll[OF assms(1-3)] bm' len bits by auto
qed

lemma RemoveBody_file:
  assumes "SplitPath path = Some (parent, filename)"
      and "OpenDir d parent = Some (Some dirF)"
      and "FindIndex (dirFile d (hdrSector dirF)) filename = Some i"
      and "\<not> type (dirFile d (hdrSector dirF) ! i)"
  shows "RemoveBody rec d path recur =
         (case releaseFile d (hdrSector dirF) (dirFile d (hdrSector dirF)) filename
                 (sector (dirFile d (hdrSector dirF) ! i))
                 (headers d (sector (dirFile d (hdrSector dirF) ! i))) (freeMapFile d) of
            None \<Rightarrow> None
          | Some (d2, cleared) \<Rightarrow> Some (True, d2, [''Remove '' @ path]))"
  using assms by (simp add: RemoveBody_def Find_def Let_def split: option.splits)

lemma RemoveBody_directory:
  assumes "SplitPath path = Some (parent, filename)"
      and "OpenDir d parent = Some (Some dirF)"
      and "FindIndex (dirFile d (hdrSector dirF)) filename = Some i"
      and "type (dirFile d (hdrSector dirF) ! i)"
      and "OpenDir d path = Some (Some nextDirFile)"
  shows "RemoveBody rec d path recur =
         (if recur = False \<and> length (filter inUse (dirFile d (hdrSector nextDirFile))) \<noteq> 0
          then Some (False, d, [''Remove '' @ path, filename @ '': directory not empty!''])
          else
            (case removeChildren rec path recur (dirFile d (hdrSector nextDirFile)) d
                    [''Remove '' @ path] of
               None \<Rightarrow> None
             | Some (d1, out1) \<Rightarrow>
                 (case releaseFile d1 (hdrSector dirF) (dirFile d (hdrSector dirF)) filename
                         (sector (dirFile d (hdrSector dirF) ! i))
                         (headers d (sector (dirFile d (hdrSector dirF) ! i)))
                         (freeMapFile d) of
                    None \<Rightarrow> None
                  | Some (d2, cleared) \<Rightarrow> Some (True, d2, out1))))"
  using assms by (simp add: RemoveBody_def Find_def Let_def split: option.splits)

text \<open>
  C4. For an entry that is a file whose root header has level 0 and whose sectors are
  owned once (\<open>wellFormedFile\<close>): \<^verbatim>\<open>Remove\<close> returns \<^verbatim>\<open>TRUE\<close>, and the calls of \<open>Clear\<close>
  that its tail makes on the bitmap it loaded are, in order, those of \<open>ownedSectors\<close>:
  the data sectors of every level-1 header, the sectors of the level-1 headers, the
  sector of the root header. Every owned sector stands once in this record of the
  calls and no other sector stands in it, so each owned bit is cleared exactly once
  and none twice; the bitmap written differs from the one read in the owned bits only,
  which are clear.
\<close>

theorem Remove_file_clears_once:
  assumes "SplitPath path = Some (parent, filename)"
      and "OpenDir d parent = Some (Some dirF)"
      and "FindIndex (dirFile d (hdrSector dirF)) filename = Some i"
      and "\<not> type (dirFile d (hdrSector dirF) ! i)"
      and "sec = sector (dirFile d (hdrSector dirF) ! i)"
      and "level (headers d sec) = 0"
      and "wellFormedFile d sec"
  shows "\<exists>d' cleared.
           Remove (Suc n) d path recur = Some (True, d', [''Remove '' @ path]) \<and>
           releaseFile d (hdrSector dirF) (dirFile d (hdrSector dirF)) filename sec
             (headers d sec) (freeMapFile d) = Some (d', cleared) \<and>
           cleared = ownedSectors d sec \<and>
           (\<forall>s. count_list cleared s = (if s \<in> set (ownedSectors d sec) then 1 else 0)) \<and>
           length (freeMapFile d') = length (freeMapFile d) \<and>
           (\<forall>s < length (freeMapFile d).
              Test s (freeMapFile d') =
              (Test s (freeMapFile d) \<and> s \<notin> set (ownedSectors d sec)))"
proof -
  from assms(7) have dist: "distinct (ownedSectors d sec)"
    by (simp add: wellFormedFile_def)
  from releaseFile_owned[OF assms(6,7) refl refl, of "hdrSector dirF"
      "dirFile d (hdrSector dirF)" filename]
  obtain bm' where
    rel: "releaseFile d (hdrSector dirF) (dirFile d (hdrSector dirF)) filename sec
            (headers d sec) (freeMapFile d) =
          Some (d\<lparr>freeMapFile := bm',
                  dirFile := (dirFile d)(hdrSector dirF :=
                    DirectoryRemove (dirFile d (hdrSector dirF)) filename)\<rparr>,
                ownedSectors d sec)"
    and len: "length bm' = length (freeMapFile d)"
    and bits: "\<forall>k < length (freeMapFile d).
                 bm' ! k = (freeMapFile d ! k \<and> k \<notin> set (ownedSectors d sec))"
    by blast
  define d' where "d' = d\<lparr>freeMapFile := bm',
      dirFile := (dirFile d)(hdrSector dirF := DirectoryRemove (dirFile d (hdrSector dirF)) filename)\<rparr>"
  have rel': "releaseFile d (hdrSector dirF) (dirFile d (hdrSector dirF)) filename sec
               (headers d sec) (freeMapFile d) = Some (d', ownedSectors d sec)"
    using rel by (simp add: d'_def)
  have 1: "Remove (Suc n) d path recur = Some (True, d', [''Remove '' @ path])"
    using RemoveBody_file[OF assms(1-4)] rel' assms(5) by simp
  have 2: "\<forall>s. count_list (ownedSectors d sec) s = (if s \<in> set (ownedSectors d sec) then 1 else 0)"
    using dist by (simp add: count_list_distinct)
  have 3: "length (freeMapFile d') = length (freeMapFile d)" using len by (simp add: d'_def)
  have 4: "\<forall>s < length (freeMapFile d).
      Test s (freeMapFile d') = (Test s (freeMapFile d) \<and> s \<notin> set (ownedSectors d sec))"
    using bits len by (simp add: Test_def d'_def)
  from 1 rel' 2 3 4 show ?thesis by blast
qed

theorem Remove_file_clears_once_witness:
  "\<exists>d'. Remove 1 diskWithFile ''/a'' False = Some (True, d', [''Remove /a'']) \<and>
         releaseFile diskWithFile 1 (dirFile diskWithFile 1) ''a'' 13 (headers diskWithFile 13)
           (freeMapFile diskWithFile) = Some (d', [15, 14, 13]) \<and>
         ownedSectors diskWithFile 13 = [15, 14, 13] \<and>
         Test 14 (freeMapFile diskWithFile) \<and> \<not> Test 14 (freeMapFile d') \<and>
         Test 12 (freeMapFile diskWithFile) \<and> Test 12 (freeMapFile d')"
proof -
  have a1: "SplitPath ''/a'' = Some (''/'', ''a'')" by code_simp
  have a2: "OpenDir diskWithFile ''/'' = Some (Some (OpenFile 1))" by code_simp
  have a3: "FindIndex (dirFile diskWithFile (hdrSector (OpenFile 1))) ''a'' = Some 0" by code_simp
  have a4: "\<not> type (dirFile diskWithFile (hdrSector (OpenFile 1)) ! 0)" by code_simp
  have a5: "13 = sector (dirFile diskWithFile (hdrSector (OpenFile 1)) ! 0)" by code_simp
  have a6: "level (headers diskWithFile 13) = 0" by code_simp
  have a7: "wellFormedFile diskWithFile 13" by code_simp
  have o: "ownedSectors diskWithFile 13 = [15, 14, 13]" by code_simp
  have t: "Test 14 (freeMapFile diskWithFile)" "14 < length (freeMapFile diskWithFile)"
    "Test 12 (freeMapFile diskWithFile)" "12 < length (freeMapFile diskWithFile)"
    by code_simp+
  from Remove_file_clears_once[OF a1 a2 a3 a4 a5 a6 a7, of 0 False] o t
  show ?thesis by auto
qed

subsection \<open>Resolving the path of an entry\<close>

lemma fields_nonempty: "fields s \<noteq> []"
  by (induction s) (auto split: list.splits)

lemma fields_append: "fields (a @ CHR ''/'' # b) = fields a @ fields b"
proof (induction a)
  case Nil
  then show ?case by simp
next
  case (Cons c cs)
  obtain t ts where f: "fields cs = t # ts"
    using fields_nonempty[of cs] by (cases "fields cs") auto
  with Cons show ?case by simp
qed

lemma fields_no_slash: "CHR ''/'' \<notin> set n \<Longrightarrow> fields n = [n]"
  by (induction n) auto

lemma tokens_append:
  "CHR ''/'' \<notin> set n \<Longrightarrow> tokens (p @ CHR ''/'' # n) = tokens p @ (if n = [] then [] else [n])"
  by (simp add: tokens_def fields_append fields_no_slash)

lemma tokens_root: "tokens ''/'' = []" "tokens [] = []"
  by (simp_all add: tokens_def)

lemma walk_append:
  "walk d (dirFile d sec) sec (ts @ us) =
   (case walk d (dirFile d sec) sec ts of None \<Rightarrow> None | Some s \<Rightarrow> walk d (dirFile d s) s us)"
  by (induction ts arbitrary: sec) (auto split: option.splits)

lemma OpenDir_SomeD:
  "OpenDir d p = Some (Some dirF) \<Longrightarrow>
   length p < 1024 \<and> walk d (dirFile d DirectorySector) 1 (tokens p) = Some (hdrSector dirF)"
  by (auto simp: OpenDir_def split: if_splits option.splits)

lemma OpenDir_child:
  assumes sp: "SplitPath path = Some (parent, filename)"
      and od: "OpenDir d parent = Some (Some dirF)"
      and len: "length path \<noteq> 1023"
  shows "OpenDir d path =
         (if filename = [] then Some (Some dirF)
          else (case Find (dirFile d (hdrSector dirF)) filename of
                  None \<Rightarrow> Some None
                | Some s \<Rightarrow> Some (Some (OpenFile s))))"
proof -
  from SplitPath_Some[OF sp] obtain p where p: "path = p @ CHR ''/'' # filename"
    "CHR ''/'' \<notin> set filename" "parent = (if p = [] then ''/'' else p)" "length path < 1024"
    by blast
  have tp: "tokens parent = tokens p" using p(3) by (simp add: tokens_root)
  from OpenDir_SomeD[OF od] tp
  have w: "walk d (dirFile d DirectorySector) 1 (tokens p) = Some (hdrSector dirF)" by simp
  have one: "DirectorySector = 1" by (simp add: DirectorySector_def)
  have w2: "walk d (dirFile d DirectorySector) 1 (tokens path) =
            walk d (dirFile d (hdrSector dirF)) (hdrSector dirF) (if filename = [] then [] else [filename])"
    using walk_append[of d 1 "tokens p" "if filename = [] then [] else [filename]"] w
    unfolding p(1) tokens_append[OF p(2)] one by simp
  have dirF: "OpenFile (hdrSector dirF) = dirF" by simp
  show ?thesis
  proof (cases "filename = []")
    case True
    with w2 p(4) len dirF show ?thesis by (simp add: OpenDir_def)
  next
    case False
    with w2 p(4) len show ?thesis by (simp add: OpenDir_def split: option.splits)
  qed
qed

subsection \<open>Removing a directory\<close>

lemma FindIndex_inUse: "FindIndex table nm = Some i \<Longrightarrow> i < length table \<and> inUse (table ! i)"
  using FindIndex_Some[of table nm i] by (simp add: matches_def)

text \<open>
  C6. For an entry that is a directory whose table has an entry in use, \<^verbatim>\<open>Remove\<close> with
  \<open>recur = FALSE\<close> prints "directory not empty", returns \<^verbatim>\<open>FALSE\<close> and leaves the disk as
  it was: bitmap, parent directory and target directory are unchanged.
\<close>

theorem Remove_directory_not_empty:
  assumes "SplitPath path = Some (parent, filename)"
      and "OpenDir d parent = Some (Some dirF)"
      and "FindIndex (dirFile d (hdrSector dirF)) filename = Some i"
      and "type (dirFile d (hdrSector dirF) ! i)"
      and "list_ex inUse (dirFile d (sector (dirFile d (hdrSector dirF) ! i)))"
      and "length path \<noteq> 1023"
  shows "Remove (Suc n) d path False =
         Some (False, d, [''Remove '' @ path, filename @ '': directory not empty!''])"
proof -
  let ?directory = "dirFile d (hdrSector dirF)"
  let ?sec = "sector (?directory ! i)"
  have fnd: "Find ?directory filename = Some ?sec"
    using assms(3) by (simp add: Find_def)
  obtain nextDirFile where nd: "OpenDir d path = Some (Some nextDirFile)"
    and tgt: "nextDirFile = (if filename = [] then dirF else OpenFile ?sec)"
    using OpenDir_child[OF assms(1,2,6)] fnd by simp
  have "filter inUse (dirFile d (hdrSector nextDirFile)) \<noteq> []"
  proof (cases "filename = []")
    case True
    from FindIndex_inUse[OF assms(3)] have "?directory ! i \<in> set ?directory" "inUse (?directory ! i)"
      by simp_all
    then have "filter inUse ?directory \<noteq> []"
      by (auto simp: filter_empty_conv)
    with True tgt show ?thesis by simp
  next
    case False
    with tgt assms(5) show ?thesis
      by (auto simp: list_ex_iff filter_empty_conv)
  qed
  then have "length (filter inUse (dirFile d (hdrSector nextDirFile))) \<noteq> 0" by simp
  with RemoveBody_directory[OF assms(1-4) nd, of "Remove n" False] show ?thesis by simp
qed

theorem Remove_directory_not_empty_witness:
  "Remove 1 diskWithDir ''/d'' False =
   Some (False, diskWithDir, [''Remove /d'', ''d: directory not empty!''])"
proof -
  have a1: "SplitPath ''/d'' = Some (''/'', ''d'')" by code_simp
  have a2: "OpenDir diskWithDir ''/'' = Some (Some (OpenFile 1))" by code_simp
  have a3: "FindIndex (dirFile diskWithDir (hdrSector (OpenFile 1))) ''d'' = Some 0" by code_simp
  have a4: "type (dirFile diskWithDir (hdrSector (OpenFile 1)) ! 0)" by code_simp
  have a5: "list_ex inUse
              (dirFile diskWithDir (sector (dirFile diskWithDir (hdrSector (OpenFile 1)) ! 0)))"
    by code_simp
  have a6: "length ''/d'' \<noteq> 1023" by simp
  from Remove_directory_not_empty[OF a1 a2 a3 a4 a5 a6, of 0] show ?thesis by simp
qed


subsection \<open>Remove returns on a well-formed disk\<close>








































subsection \<open>The bitmap after a recursive removal\<close>

text \<open>
  The bitmap that the tail of \<^verbatim>\<open>Remove\<close> writes is computed from the bitmap loaded at
  the start of the call: what the calls on the children have written to the bitmap file
  in between does not enter it.
\<close>

lemma deallocateChildren_headers:
  "headers d1 = headers d2 \<Longrightarrow> deallocateChildren d1 ss bm = deallocateChildren d2 ss bm"
  by (induction ss arbitrary: bm) (auto split: option.splits)

lemma releaseFile_stale_bitmap:
  "map_option (\<lambda>(d2, cleared). (freeMapFile d2, cleared))
     (releaseFile (d1\<lparr>freeMapFile := written\<rparr>) dirSec directory filename sec fileHdr bm) =
   map_option (\<lambda>(d2, cleared). (freeMapFile d2, cleared))
     (releaseFile d1 dirSec directory filename sec fileHdr bm)"
proof -
  have "\<And>m. deallocateLevel1 (d1\<lparr>freeMapFile := written\<rparr>) fileHdr m = deallocateLevel1 d1 fileHdr m"
    using deallocateChildren_headers[of "d1\<lparr>freeMapFile := written\<rparr>" d1]
    by (simp add: deallocateLevel1_def)
  then show ?thesis
    by (simp add: releaseFile_def split: option.splits)
qed

text \<open>
  C3. The claim: after any sequence of successful operations on a formatted disk, the
  sectors whose bit is set in the bitmap file are the sectors referenced from the two
  fixed headers and the root directory. After \<^verbatim>\<open>CreateDirectory("d", "/")\<close> and
  \<^verbatim>\<open>Create("/d/x", 10)\<close> the two agree (sectors 0 to 26). \<^verbatim>\<open>Remove("/d", TRUE)\<close> then
  returns \<^verbatim>\<open>TRUE\<close>, but it loads its bitmap before the call on \<^verbatim>\<open>/d/x\<close> and writes it back
  after that call has written its own: the bits of sectors 24, 25 and 26, which
  \<^verbatim>\<open>/d/x\<close> owned, are set again, and nothing references them.
\<close>

theorem recursive_Remove_leaks:
  "Option.bind (Format zeroDisk) (\<lambda>d0.
   Option.bind (CreateDirectory d0 ''d'' ''/'') (\<lambda>(b1, d1).
   Option.bind (Create d1 ''/d/x'' 10) (\<lambda>(b2, d2).
   Option.bind (Remove 2 d2 ''/d'' True) (\<lambda>(b3, d3, out).
     Some (b1, b2, b3,
           allocatedSectors (freeMapFile d2), sort (remdups (referencedSectors 2 d2)),
           allocatedSectors (freeMapFile d3), sort (remdups (referencedSectors 2 d3)))))))
   = Some (True, True, True, [0..<27], [0..<27], [0..<13] @ [24, 25, 26], [0..<13])"
  by code_simp

subsection \<open>Files built by Create are well formed\<close>

text \<open>
  Every sector that \<^verbatim>\<open>Create\<close> takes was clear in the bitmap at the time and is set from
  then on, so the sectors of the new file are in the bitmap and pairwise different,
  on whatever disk \<^verbatim>\<open>Create\<close> is called.
\<close>

lemma Allocate_listed:
  assumes "Allocate hdr fm sz = (True, h, fm')" "length (dataSectors hdr) = NumDirect"
  shows "findAndSetN (nat (numSectors h)) fm = (Some (hdrListed h), fm') \<and>
         numSectors h \<le> int (length (dataSectors h)) \<and> length (dataSectors h) = NumDirect"
proof -
  from Allocate_True[OF assms(1)] obtain ss where
    f: "findAndSetN (nat (divRoundUp sz (int SectorSize))) fm = (Some ss, fm')"
    and le: "divRoundUp sz (int SectorSize) \<le> int NumDirect"
    and h: "h = hdr\<lparr>numBytes := sz, numSectors := divRoundUp sz (int SectorSize),
                     dataSectors := ss @ drop (length ss) (dataSectors hdr)\<rparr>"
    by blast
  from findAndSetN_Some[OF f] have len: "length ss = nat (divRoundUp sz (int SectorSize))"
    by simp
  with le have "length ss \<le> NumDirect" by simp
  with h len f le assms(2) show ?thesis by (simp add: hdrListed_def)
qed

lemma dataLoop_sectors:
  "dataLoop r idx hs fm b = Some (hs', fm', True) \<Longrightarrow>
   list_all (\<lambda>h. length (dataSectors h) = NumDirect) hs \<Longrightarrow>
   length fm' = length fm \<and>
   distinct (concat (map (\<lambda>j. hdrListed (hs' ! j))
               [idx..<idx + nat (divRoundUp r (int (NumDirect * SectorSize)))])) \<and>
   (\<forall>j. idx \<le> j \<and> int j < int idx + divRoundUp r (int (NumDirect * SectorSize)) \<longrightarrow>
        numSectors (hs' ! j) \<le> int (length (dataSectors (hs' ! j))) \<and>
        list_all (\<lambda>s. s < length fm \<and> \<not> fm ! s) (hdrListed (hs' ! j)))"
proof (induction r idx hs fm b rule: dataLoop.induct)
  case (1 r idx hs fm b)
  let ?F = "int (NumDirect * SectorSize)"
  let ?L = "divRoundUp r ?F"
  show ?case
  proof (cases "0 < r")
    case False
    with "1.prems" have "fm' = fm" by (simp add: dataLoop.simps)
    moreover from False have "?L \<le> 0" using divRoundUp_nonpos[OF _ full_pos, of r] by simp
    ultimately show ?thesis by auto
  next
    case True
    define t where "t = (if r \<ge> ?F then ?F else r)"
    from True "1.prems" have idx: "\<not> length hs \<le> idx"
      by (auto simp: dataLoop.simps Let_def split: if_splits)
    obtain ok h fm1 where al: "Allocate ((hs ! idx)\<lparr>level := 1\<rparr>) fm t = (ok, h, fm1)"
      by (cases "Allocate ((hs ! idx)\<lparr>level := 1\<rparr>) fm t") auto
    from True idx al "1.prems" have
      rec: "dataLoop (r - t) (Suc idx) (hs[idx := h]) fm1 (b \<and> ok) = Some (hs', fm', True)"
      by (simp add: dataLoop.simps Let_def t_def)
    from dataLoop_success[OF rec] have ok: ok by simp
    from idx "1.prems"(2) have "length (dataSectors ((hs ! idx)\<lparr>level := 1\<rparr>)) = NumDirect"
      by (simp add: list_all_length)
    from Allocate_listed[OF al[unfolded ok[THEN eqTrueI]] this]
    have f: "findAndSetN (nat (numSectors h)) fm = (Some (hdrListed h), fm1)"
      and hle: "numSectors h \<le> int (length (dataSectors h))"
      and hlen: "length (dataSectors h) = NumDirect" by simp_all
    from findAndSetN_Some[OF f] have dh: "distinct (hdrListed h)"
      and fh: "list_all (\<lambda>s. s < length fm \<and> \<not> fm ! s) (hdrListed h)"
      and l1: "length fm1 = length fm"
      and b1: "\<forall>k < length fm. fm1 ! k = (fm ! k \<or> k \<in> set (hdrListed h))" by simp_all
    have inv: "list_all (\<lambda>h. length (dataSectors h) = NumDirect) (hs[idx := h])"
      using "1.prems"(2) hlen set_update_subset_insert[of hs idx h]
      by (auto simp: list_all_iff)
    from "1.IH"[OF True t_def idx al[symmetric] refl rec inv]
    have ih1: "length fm' = length fm1"
      and ih2: "distinct (concat (map (\<lambda>j. hdrListed (hs' ! j))
                  [Suc idx..<Suc idx + nat (divRoundUp (r - t) ?F)]))"
      and ih3: "\<forall>j. Suc idx \<le> j \<and> int j < int (Suc idx) + divRoundUp (r - t) ?F \<longrightarrow>
          numSectors (hs' ! j) \<le> int (length (dataSectors (hs' ! j))) \<and>
          list_all (\<lambda>s. s < length fm1 \<and> \<not> fm1 ! s) (hdrListed (hs' ! j))"
      by simp_all
    from dataLoop_headers[OF rec] idx have at: "hs' ! idx = h" by simp
    have L: "?L = 1 + divRoundUp (r - t) ?F" and L0: "0 \<le> divRoundUp (r - t) ?F"
    proof -
      show "?L = 1 + divRoundUp (r - t) ?F"
      proof (cases "?F \<le> r")
        case True
        then show ?thesis using divRoundUp_step[OF full_pos, of r] by (simp add: t_def)
      next
        case False
        with \<open>0 < r\<close> have "?L = 1" by (intro divRoundUp_small) simp_all
        moreover from False have "divRoundUp (r - t) ?F = 0" by (simp add: t_def divRoundUp_def)
        ultimately show ?thesis by simp
      qed
      have "0 \<le> r - t" using True full_pos by (simp add: t_def)
      then show "0 \<le> divRoundUp (r - t) ?F"
        using divRoundUp_pos[OF _ full_pos, of "r - t"]
        by (cases "r - t = 0") (simp_all add: divRoundUp_def)
    qed
    have rng: "[idx..<idx + nat ?L] = idx # [Suc idx..<Suc idx + nat (divRoundUp (r - t) ?F)]"
      using L L0 by (simp add: upt_conv_Cons nat_add_distrib)
    have later: "\<forall>j. Suc idx \<le> j \<and> int j < int (Suc idx) + divRoundUp (r - t) ?F \<longrightarrow>
          list_all (\<lambda>s. s < length fm \<and> \<not> fm ! s \<and> s \<notin> set (hdrListed h)) (hdrListed (hs' ! j))"
    proof (intro allI impI)
      fix j assume j: "Suc idx \<le> j \<and> int j < int (Suc idx) + divRoundUp (r - t) ?F"
      with ih3 have "list_all (\<lambda>s. s < length fm1 \<and> \<not> fm1 ! s) (hdrListed (hs' ! j))" by blast
      then show "list_all (\<lambda>s. s < length fm \<and> \<not> fm ! s \<and> s \<notin> set (hdrListed h))
                   (hdrListed (hs' ! j))"
        using l1 b1 by (auto simp: list_all_iff)
    qed
    have disj: "set (hdrListed h) \<inter>
                set (concat (map (\<lambda>j. hdrListed (hs' ! j))
                       [Suc idx..<Suc idx + nat (divRoundUp (r - t) ?F)])) = {}"
    proof (rule ccontr)
      assume "\<not> ?thesis"
      then obtain s where s: "s \<in> set (hdrListed h)"
        and sc: "s \<in> set (concat (map (\<lambda>j. hdrListed (hs' ! j))
                       [Suc idx..<Suc idx + nat (divRoundUp (r - t) ?F)]))"
        by blast
      from sc obtain j where j: "j \<in> set [Suc idx..<Suc idx + nat (divRoundUp (r - t) ?F)]"
        and sj: "s \<in> set (hdrListed (hs' ! j))"
        unfolding set_concat set_map by blast
      from j have "Suc idx \<le> j" "j < Suc idx + nat (divRoundUp (r - t) ?F)"
        unfolding set_upt by simp_all
      with L0 have "Suc idx \<le> j \<and> int j < int (Suc idx) + divRoundUp (r - t) ?F" by linarith
      with later have "list_all (\<lambda>s. s < length fm \<and> \<not> fm ! s \<and> s \<notin> set (hdrListed h))
          (hdrListed (hs' ! j))" by blast
      with sj s show False unfolding list_all_iff by blast
    qed
    have dist: "distinct (concat (map (\<lambda>j. hdrListed (hs' ! j)) [idx..<idx + nat ?L]))"
      unfolding rng using dh ih2 disj at by simp
    have all: "\<forall>j. idx \<le> j \<and> int j < int idx + ?L \<longrightarrow>
        numSectors (hs' ! j) \<le> int (length (dataSectors (hs' ! j))) \<and>
        list_all (\<lambda>s. s < length fm \<and> \<not> fm ! s) (hdrListed (hs' ! j))"
    proof (intro allI impI)
      fix j assume j: "idx \<le> j \<and> int j < int idx + ?L"
      show "numSectors (hs' ! j) \<le> int (length (dataSectors (hs' ! j))) \<and>
            list_all (\<lambda>s. s < length fm \<and> \<not> fm ! s) (hdrListed (hs' ! j))"
      proof (cases "j = idx")
        case True
        with at hle fh show ?thesis by simp
      next
        case False
        with j L have jj: "Suc idx \<le> j \<and> int j < int (Suc idx) + divRoundUp (r - t) ?F"
          by linarith
        with ih3 have "numSectors (hs' ! j) \<le> int (length (dataSectors (hs' ! j)))" by blast
        moreover from later jj
        have "list_all (\<lambda>s. s < length fm \<and> \<not> fm ! s) (hdrListed (hs' ! j))"
          by (auto simp: list_all_iff)
        ultimately show ?thesis by simp
      qed
    qed
    from ih1 l1 dist all show ?thesis by simp
  qed
qed

lemma dataLoop_bits:
  "dataLoop r idx hs fm b = Some (hs', fm', True) \<Longrightarrow>
   list_all (\<lambda>h. length (dataSectors h) = NumDirect) hs \<Longrightarrow>
   (\<forall>k < length fm. fm' ! k =
      (fm ! k \<or> k \<in> set (concat (map (\<lambda>j. hdrListed (hs' ! j))
                 [idx..<idx + nat (divRoundUp r (int (NumDirect * SectorSize)))]))))"
proof (induction r idx hs fm b rule: dataLoop.induct)
  case (1 r idx hs fm b)
  let ?F = "int (NumDirect * SectorSize)"
  let ?L = "divRoundUp r ?F"
  show ?case
  proof (cases "0 < r")
    case False
    with "1.prems" have "fm' = fm" by (simp add: dataLoop.simps)
    moreover from False have "?L \<le> 0" using divRoundUp_nonpos[OF _ full_pos, of r] by simp
    ultimately show ?thesis by auto
  next
    case True
    define t where "t = (if r \<ge> ?F then ?F else r)"
    from True "1.prems" have idx: "\<not> length hs \<le> idx"
      by (auto simp: dataLoop.simps Let_def split: if_splits)
    obtain ok h fm1 where al: "Allocate ((hs ! idx)\<lparr>level := 1\<rparr>) fm t = (ok, h, fm1)"
      by (cases "Allocate ((hs ! idx)\<lparr>level := 1\<rparr>) fm t") auto
    from True idx al "1.prems" have
      rec: "dataLoop (r - t) (Suc idx) (hs[idx := h]) fm1 (b \<and> ok) = Some (hs', fm', True)"
      by (simp add: dataLoop.simps Let_def t_def)
    from dataLoop_success[OF rec] have ok: ok by simp
    from idx "1.prems"(2) have "length (dataSectors ((hs ! idx)\<lparr>level := 1\<rparr>)) = NumDirect"
      by (simp add: list_all_length)
    from Allocate_listed[OF al[unfolded ok[THEN eqTrueI]] this]
    have f: "findAndSetN (nat (numSectors h)) fm = (Some (hdrListed h), fm1)"
      and hlen: "length (dataSectors h) = NumDirect" by simp_all
    from findAndSetN_Some[OF f] have l1: "length fm1 = length fm"
      and b1: "\<forall>k < length fm. fm1 ! k = (fm ! k \<or> k \<in> set (hdrListed h))" by simp_all
    have inv: "list_all (\<lambda>h. length (dataSectors h) = NumDirect) (hs[idx := h])"
      using "1.prems"(2) hlen set_update_subset_insert[of hs idx h]
      by (auto simp: list_all_iff)
    from "1.IH"[OF True t_def idx al[symmetric] refl rec inv]
    have ih: "\<forall>k < length fm1. fm' ! k =
      (fm1 ! k \<or> k \<in> set (concat (map (\<lambda>j. hdrListed (hs' ! j))
                 [Suc idx..<Suc idx + nat (divRoundUp (r - t) ?F)])))"
      by simp
    from dataLoop_headers[OF rec] idx have at: "hs' ! idx = h" by simp
    have L: "?L = 1 + divRoundUp (r - t) ?F" and L0: "0 \<le> divRoundUp (r - t) ?F"
    proof -
      show "?L = 1 + divRoundUp (r - t) ?F"
      proof (cases "?F \<le> r")
        case True
        then show ?thesis using divRoundUp_step[OF full_pos, of r] by (simp add: t_def)
      next
        case False
        with \<open>0 < r\<close> have "?L = 1" by (intro divRoundUp_small) simp_all
        moreover from False have "divRoundUp (r - t) ?F = 0" by (simp add: t_def divRoundUp_def)
        ultimately show ?thesis by simp
      qed
      have "0 \<le> r - t" using True full_pos by (simp add: t_def)
      then show "0 \<le> divRoundUp (r - t) ?F"
        using divRoundUp_pos[OF _ full_pos, of "r - t"]
        by (cases "r - t = 0") (simp_all add: divRoundUp_def)
    qed
    have rng: "[idx..<idx + nat ?L] = idx # [Suc idx..<Suc idx + nat (divRoundUp (r - t) ?F)]"
      using L L0 by (simp add: upt_conv_Cons nat_add_distrib)
    show ?thesis
    proof (intro allI impI)
      fix k assume k: "k < length fm"
      with ih l1 have "fm' ! k =
        (fm1 ! k \<or> k \<in> set (concat (map (\<lambda>j. hdrListed (hs' ! j))
                 [Suc idx..<Suc idx + nat (divRoundUp (r - t) ?F)])))" by simp
      with b1 k show "fm' ! k =
        (fm ! k \<or> k \<in> set (concat (map (\<lambda>j. hdrListed (hs' ! j)) [idx..<idx + nat ?L])))"
        unfolding rng using at by auto
    qed
  qed
qed

text \<open>Adding an entry does not change what a name that was found leads to.\<close>

lemma addEntry_Find_other:
  assumes "addEntry isDir table nm sec = Some table'" and "Find table c = Some s"
  shows "Find table' c = Some s"
proof -
  from addEntry_Some[OF assms(1)] obtain i where i: "i < length table" "\<not> inUse (table ! i)"
    and t': "table' = table[i := \<lparr>inUse = True, type = isDir, sector = sec,
                                  name = take FileNameMaxLen nm\<rparr>]"
    by blast
  from assms(1) have none: "FindIndex table nm = None"
    by (auto simp: addEntry_def split: option.splits)
  from Find_FindIndex[OF assms(2)] obtain k where k: "FindIndex table c = Some k"
    and s: "s = sector (table ! k)" by blast
  from FindIndex_Some[OF k] have kk: "k < length table" "matches c (table ! k)"
    "\<forall>j < k. \<not> matches c (table ! j)" by simp_all
  from kk(2) i(2) have ki: "k \<noteq> i" by (auto simp: matches_def)
  have nm: "\<not> matches c (table' ! i)"
  proof
    assume "matches c (table' ! i)"
    with i t' have "take FileNameMaxLen nm = take FileNameMaxLen c" by (simp add: matches_def)
    with kk(2) have "matches nm (table ! k)" by (simp add: matches_def)
    with none kk(1) show False
      by (auto simp: FindIndex_def firstIndex_None)
  qed
  have "firstIndex (matches c) table' 0 = Some (0 + k)"
  proof (rule firstIndex_SomeI)
    show "k < length table'" using kk(1) t' by simp
    show "matches c (table' ! k)" using kk(2) ki t' by simp
    show "\<forall>j < k. \<not> matches c (table' ! j)"
    proof (intro allI impI)
      fix j assume j: "j < k"
      show "\<not> matches c (table' ! j)"
      proof (cases "j = i")
        case True
        with nm show ?thesis by simp
      next
        case False
        with j kk(3) t' show ?thesis by simp
      qed
    qed
  qed
  with s ki t' show ?thesis by (simp add: Find_def FindIndex_def)
qed

lemma walk_dirFile_upd:
  assumes "addEntry isDir (dirFile d ps) nm sec = Some table'"
      and "dirFile d2 = (dirFile d)(ps := table')"
  shows "walk d (dirFile d cur) cur ts = Some s \<Longrightarrow> walk d2 (dirFile d2 cur) cur ts = Some s"
proof (induction ts arbitrary: cur)
  case Nil
  then show ?case by simp
next
  case (Cons c ts)
  from Cons.prems obtain s1 where f: "Find (dirFile d cur) c = Some s1"
    and w: "walk d (dirFile d s1) s1 ts = Some s"
    by (auto split: option.splits)
  have "Find (dirFile d2 cur) c = Some s1"
  proof (cases "cur = ps")
    case True
    with f addEntry_Find_other[OF assms(1)] assms(2) show ?thesis by simp
  next
    case False
    with f assms(2) show ?thesis by simp
  qed
  with Cons.IH[OF w] show ?case by simp
qed

lemma Create_allocates:
  assumes "Create d path initialSize = Some (True, d')"
  shows "\<exists>parent filename dirF hdrSec i.
     SplitPath path = Some (parent, filename) \<and>
     OpenDir d parent = Some (Some dirF) \<and>
     OpenDir d' parent = Some (Some dirF) \<and>
     FindIndex (dirFile d' (hdrSector dirF)) filename = Some i \<and>
     \<not> type (dirFile d' (hdrSector dirF) ! i) \<and>
     sector (dirFile d' (hdrSector dirF) ! i) = hdrSec \<and>
     level (headers d' hdrSec) = 0 \<and>
     wellFormedFile d' hdrSec \<and>
     length (freeMapFile d') = length (freeMapFile d) \<and>
     (\<forall>k < length (freeMapFile d).
        freeMapFile d' ! k = (freeMapFile d ! k \<or> k \<in> set (ownedSectors d' hdrSec))) \<and>
     (\<forall>s \<in> set (ownedSectors d' hdrSec). \<not> freeMapFile d ! s)"
proof -
  define L where "L = divRoundUp initialSize (int (SectorSize * NumDirect))"
  have L2: "divRoundUp initialSize (int (NumDirect * SectorSize)) = L"
    by (simp add: L_def mult.commute)
  define hdr where "hdr = (\<lambda>level1Sector. newFileHeader
                    \<lparr>numBytes := initialSize, numSectors := L, level := 0,
                     dataSectors := level1Sector @
                       drop (length level1Sector) (dataSectors newFileHeader)\<rparr>)"
  from Create_TrueD[OF assms, folded L_def] obtain parent filename dirF hdrSec freeMap1
    level1Sector freeMap2 directory' level1Hdr freeMap3
    where sp: "SplitPath path = Some (parent, filename)"
      and od: "OpenDir d parent = Some (Some dirF)"
      and fs: "FindAndSet (freeMapFile d) = (Some hdrSec, freeMap1)"
      and l1: "level1Loop 0 (nat L) freeMap1 = Some (level1Sector, True, freeMap2)"
      and ad: "Add (dirFile d (hdrSector dirF)) filename hdrSec = Some directory'"
      and dl: "dataLoop initialSize 0 (replicate NumDirect newFileHeader) freeMap2 True =
                 Some (level1Hdr, freeMap3, True)"
      and d': "d' = d\<lparr>headers :=
                 writeLevel1 level1Sector level1Hdr (nat L) ((headers d)(hdrSec := hdr level1Sector)),
               freeMapFile := freeMap3,
               dirFile := (dirFile d)(hdrSector dirF := directory')\<rparr>"
    unfolding hdr_def by blast
  let ?bm = "freeMapFile d"
  from level1Loop_findAndSetN[OF l1]
  have fn: "findAndSetN (nat L) freeMap1 = (Some level1Sector, freeMap2)"
    and bound: "0 < nat L \<longrightarrow> nat L \<le> NumDirect" by simp_all
  from findAndSetN_Some[OF fn]
  have len: "length level1Sector = nat L" and dist1: "distinct level1Sector"
    and fresh1: "list_all (\<lambda>s. s < length freeMap1 \<and> \<not> freeMap1 ! s) level1Sector"
    and len2: "length freeMap2 = length freeMap1"
    and bits2: "\<forall>k < length freeMap1. freeMap2 ! k = (freeMap1 ! k \<or> k \<in> set level1Sector)"
    by simp_all
  from FindAndSet_Some[OF fs] have h0: "hdrSec < length ?bm"
    and fm1: "freeMap1 = ?bm[hdrSec := True]" by simp_all
  then have h1: "freeMap1 ! hdrSec" and len1: "length freeMap1 = length ?bm" by simp_all
  from fresh1 h1 have notin: "hdrSec \<notin> set level1Sector"
    by (auto simp: list_all_iff)
  have inv: "list_all (\<lambda>h. length (dataSectors h) = NumDirect) (replicate NumDirect newFileHeader)"
    by (simp add: list_all_iff newFileHeader_def)
  from dataLoop_bits[OF dl inv, unfolded L2]
  have bits3: "\<forall>k < length freeMap2. freeMap3 ! k =
      (freeMap2 ! k \<or> k \<in> set (concat (map (\<lambda>j. hdrListed (level1Hdr ! j)) [0..<0 + nat L])))"
    by blast
  from dataLoop_sectors[OF dl inv, unfolded L2]
  have len3: "length freeMap3 = length freeMap2"
    and dist2: "distinct (concat (map (\<lambda>j. hdrListed (level1Hdr ! j)) [0..<0 + nat L]))"
    and each: "\<forall>j. 0 \<le> j \<and> int j < int 0 + L \<longrightarrow>
        numSectors (level1Hdr ! j) \<le> int (length (dataSectors (level1Hdr ! j))) \<and>
        list_all (\<lambda>s. s < length freeMap2 \<and> \<not> freeMap2 ! s) (hdrListed (level1Hdr ! j))"
    by blast+
  have root: "headers d' hdrSec = hdr level1Sector"
    using notin len by (simp add: d' writeLevel1_other)
  have child: "\<forall>i < nat L. headers d' (level1Sector ! i) = level1Hdr ! i"
    using dist1 len by (simp add: d' writeLevel1_nth)
  have lroot: "listed d' hdrSec = level1Sector"
    using len by (simp add: listed_def hdrListed_def root hdr_def)
  have lchild: "map (listed d') level1Sector = map (\<lambda>j. hdrListed (level1Hdr ! j)) [0..<nat L]"
  proof (rule nth_equalityI)
    show "length (map (listed d') level1Sector) =
          length (map (\<lambda>j. hdrListed (level1Hdr ! j)) [0..<nat L])" using len by simp
  next
    fix i assume "i < length (map (listed d') level1Sector)"
    then have i: "i < nat L" using len by simp
    with child len show "map (listed d') level1Sector ! i =
                         map (\<lambda>j. hdrListed (level1Hdr ! j)) [0..<nat L] ! i"
      by (simp add: listed_def)
  qed
  let ?data = "concat (map (\<lambda>j. hdrListed (level1Hdr ! j)) [0..<nat L])"
  have owned: "ownedSectors d' hdrSec = ?data @ level1Sector @ [hdrSec]"
    by (simp add: ownedSectors_def lroot lchild)
  have datafresh: "\<forall>s \<in> set ?data. s < length freeMap2 \<and> \<not> freeMap2 ! s"
  proof
    fix s assume "s \<in> set ?data"
    then obtain j where j: "j < nat L" and s: "s \<in> set (hdrListed (level1Hdr ! j))"
      by auto
    from j have "0 \<le> j \<and> int j < int 0 + L" by simp
    with each have "list_all (\<lambda>s. s < length freeMap2 \<and> \<not> freeMap2 ! s) (hdrListed (level1Hdr ! j))"
      by blast
    with s show "s < length freeMap2 \<and> \<not> freeMap2 ! s" by (simp add: list_all_iff)
  qed
  have set2: "\<forall>s \<in> set level1Sector \<union> {hdrSec}. freeMap2 ! s"
    using bits2 fresh1 h1 h0 len1 by (auto simp: list_all_iff)
  have disj: "set ?data \<inter> (set level1Sector \<union> {hdrSec}) = {}"
    using datafresh set2 by blast
  have distinct: "distinct (ownedSectors d' hdrSec)"
    unfolding owned using dist2 dist1 notin disj by auto
  have inrange: "list_all (\<lambda>s. s < length (freeMapFile d')) (ownedSectors d' hdrSec)"
    unfolding owned using datafresh fresh1 h0 len1 len2 len3
    by (auto simp: list_all_iff d')
  have rootle: "numSectors (headers d' hdrSec) \<le> int (length (dataSectors (headers d' hdrSec)))"
    using len by (simp add: root hdr_def)
  have childle: "list_all (\<lambda>s. numSectors (headers d' s) \<le> int (length (dataSectors (headers d' s))))
                   (listed d' hdrSec)"
    unfolding lroot list_all_length
  proof (intro allI impI)
    fix i assume "i < length level1Sector"
    then have i: "i < nat L" using len by simp
    then have "0 \<le> i \<and> int i < int 0 + L" by simp
    with each child i show "numSectors (headers d' (level1Sector ! i))
        \<le> int (length (dataSectors (headers d' (level1Sector ! i))))" by simp
  qed
  have wf: "wellFormedFile d' hdrSec"
    unfolding wellFormedFile_def using rootle childle inrange distinct by blast
  from addEntry_Some[OF ad[unfolded Add_def]] obtain i where
    i: "i < length (dirFile d (hdrSector dirF))"
    and dir': "directory' = (dirFile d (hdrSector dirF))
                 [i := \<lparr>inUse = True, type = False, sector = hdrSec,
                         name = take FileNameMaxLen filename\<rparr>]"
    and fi: "FindIndex directory' filename = Some i" by blast
  have df: "dirFile d' (hdrSector dirF) = directory'" by (simp add: d')
  have entry: "\<not> type (dirFile d' (hdrSector dirF) ! i)"
    "sector (dirFile d' (hdrSector dirF) ! i) = hdrSec"
    using i by (simp_all add: df dir')
  have one: "DirectorySector = 1" by (simp add: DirectorySector_def)
  from OpenDir_SomeD[OF od]
  have w: "walk d (dirFile d 1) 1 (tokens parent) = Some (hdrSector dirF)"
    and plen: "length parent < 1024" by (simp_all add: one)
  have "dirFile d' = (dirFile d)(hdrSector dirF := directory')" by (simp add: d')
  from walk_dirFile_upd[OF ad[unfolded Add_def] this w]
  have w': "walk d' (dirFile d' 1) 1 (tokens parent) = Some (hdrSector dirF)" .
  have od': "OpenDir d' parent = Some (Some dirF)"
    using od w w' by (auto simp: OpenDir_def one split: if_splits option.splits)
  have lenbm: "length (freeMapFile d') = length ?bm"
    using len1 len2 len3 by (simp add: d')
  have bits: "\<forall>k < length ?bm.
      freeMapFile d' ! k = (?bm ! k \<or> k \<in> set (ownedSectors d' hdrSec))"
  proof (intro allI impI)
    fix k assume k: "k < length ?bm"
    with fm1 have "freeMap1 ! k = (?bm ! k \<or> k = hdrSec)"
      by (cases "k = hdrSec") simp_all
    moreover from k bits2 len1 have "freeMap2 ! k = (freeMap1 ! k \<or> k \<in> set level1Sector)"
      by simp
    moreover from k bits3 len1 len2
    have "freeMap3 ! k = (freeMap2 ! k \<or> k \<in> set ?data)" by simp
    ultimately show "freeMapFile d' ! k = (?bm ! k \<or> k \<in> set (ownedSectors d' hdrSec))"
      unfolding owned by (auto simp: d')
  qed
  have fresh: "\<forall>s \<in> set (ownedSectors d' hdrSec). \<not> ?bm ! s"
  proof
    fix s assume "s \<in> set (ownedSectors d' hdrSec)"
    then consider "s \<in> set ?data" | "s \<in> set level1Sector" | "s = hdrSec"
      unfolding owned by auto
    then show "\<not> ?bm ! s"
    proof cases
      case 1
      with datafresh have "s < length freeMap2 \<and> \<not> freeMap2 ! s" by (rule bspec)
      then have s: "s < length freeMap2" "\<not> freeMap2 ! s" by blast+
      with bits2 len2 have "\<not> freeMap1 ! s" by simp
      with fm1 s len1 len2 show ?thesis by (cases "s = hdrSec") simp_all
    next
      case 2
      with fresh1 have s: "s < length freeMap1" "\<not> freeMap1 ! s" by (simp_all add: list_all_iff)
      with fm1 len1 show ?thesis by (cases "s = hdrSec") simp_all
    next
      case 3
      with FindAndSet_Some[OF fs] show ?thesis by simp
    qed
  qed
  have "level (headers d' hdrSec) = 0" by (simp add: root hdr_def)
  with sp od od' fi[folded df] entry wf lenbm bits fresh show ?thesis by blast
qed

text \<open>
  C5. After a successful \<^verbatim>\<open>Create\<close> of \<open>initialSize\<close> bytes, with
  \<open>L = divRoundUp initialSize (SectorSize * NumDirect)\<close>: the entry of the new name in
  the parent directory leads to the root header, which is on disk with level 0,
  \<open>numBytes = initialSize\<close>, \<open>numSectors = L\<close> and, in \<open>dataSectors[0..L)\<close>, the \<open>L\<close>
  sectors allocated for the level-1 headers right after the root header's sector;
  each but the last level-1 header is on disk with \<open>NumDirect * SectorSize\<close> bytes, the
  last with the bytes that remain. Each level-1 header has been allocated these bytes:
  it lists as many sectors as its bytes need, and the sectors that the headers list,
  the sectors of the level-1 headers and the sector of the root header are pairwise
  different, were clear in the bitmap that \<^verbatim>\<open>Create\<close> read, and are the bits by which
  the bitmap it wrote differs: they are set there.
\<close>

theorem Create_builds_headers:
  assumes "Create d path initialSize = Some (True, d')"
  shows "\<exists>parent filename dirF hdrSec level1Sector freeMap1 freeMap2.
     SplitPath path = Some (parent, filename) \<and>
     OpenDir d parent = Some (Some dirF) \<and>
     FindAndSet (freeMapFile d) = (Some hdrSec, freeMap1) \<and>
     findAndSetN (nat (divRoundUp initialSize (int (SectorSize * NumDirect)))) freeMap1 =
       (Some level1Sector, freeMap2) \<and>
     Find (dirFile d' (hdrSector dirF)) filename = Some hdrSec \<and>
     level (headers d' hdrSec) = 0 \<and>
     numBytes (headers d' hdrSec) = initialSize \<and>
     numSectors (headers d' hdrSec) = divRoundUp initialSize (int (SectorSize * NumDirect)) \<and>
     take (nat (divRoundUp initialSize (int (SectorSize * NumDirect))))
       (dataSectors (headers d' hdrSec)) = level1Sector \<and>
     (\<forall>i < nat (divRoundUp initialSize (int (SectorSize * NumDirect))).
        level (headers d' (level1Sector ! i)) = 1 \<and>
        numBytes (headers d' (level1Sector ! i)) =
          (if int i < divRoundUp initialSize (int (SectorSize * NumDirect)) - 1
           then int (NumDirect * SectorSize)
           else initialSize -
                (divRoundUp initialSize (int (SectorSize * NumDirect)) - 1) *
                int (NumDirect * SectorSize)) \<and>
        numSectors (headers d' (level1Sector ! i)) =
          divRoundUp (numBytes (headers d' (level1Sector ! i))) (int SectorSize) \<and>
        length (listed d' (level1Sector ! i)) =
          nat (numSectors (headers d' (level1Sector ! i)))) \<and>
     ownedSectors d' hdrSec = concat (map (listed d') level1Sector) @ level1Sector @ [hdrSec] \<and>
     distinct (ownedSectors d' hdrSec) \<and>
     (\<forall>s \<in> set (ownedSectors d' hdrSec). s < length (freeMapFile d) \<and> \<not> freeMapFile d ! s) \<and>
     length (freeMapFile d') = length (freeMapFile d) \<and>
     (\<forall>k < length (freeMapFile d).
        freeMapFile d' ! k = (freeMapFile d ! k \<or> k \<in> set (ownedSectors d' hdrSec)))"
proof -
  define L where "L = divRoundUp initialSize (int (SectorSize * NumDirect))"
  define F where "F = int (NumDirect * SectorSize)"
  from Create_headers[OF assms, folded L_def F_def]
  obtain parent filename dirF hdrSec level1Sector freeMap1 freeMap2 where
    sp: "SplitPath path = Some (parent, filename)" and
    od: "OpenDir d parent = Some (Some dirF)" and
    fs: "FindAndSet (freeMapFile d) = (Some hdrSec, freeMap1)" and
    fn: "findAndSetN (nat L) freeMap1 = (Some level1Sector, freeMap2)" and
    find: "Find (dirFile d' (hdrSector dirF)) filename = Some hdrSec" and
    root: "level (headers d' hdrSec) = 0" "numBytes (headers d' hdrSec) = initialSize"
      "numSectors (headers d' hdrSec) = L" and
    tk: "take (nat L) (dataSectors (headers d' hdrSec)) = level1Sector" and
    children: "\<forall>i < nat L.
        level (headers d' (level1Sector ! i)) = 1 \<and>
        numSectors (headers d' (level1Sector ! i)) =
          divRoundUp (numBytes (headers d' (level1Sector ! i))) (int SectorSize) \<and>
        numBytes (headers d' (level1Sector ! i)) =
          (if int i < L - 1 then F else initialSize - (L - 1) * F)"
    by blast
  from Create_allocates[OF assms]
  obtain parent2 filename2 dirF2 hdrSec2 i where
    sp2: "SplitPath path = Some (parent2, filename2)" and
    od2: "OpenDir d parent2 = Some (Some dirF2)" and
    fi: "FindIndex (dirFile d' (hdrSector dirF2)) filename2 = Some i" and
    se: "sector (dirFile d' (hdrSector dirF2) ! i) = hdrSec2" and
    wf: "wellFormedFile d' hdrSec2" and
    len: "length (freeMapFile d') = length (freeMapFile d)" and
    bits: "\<forall>k < length (freeMapFile d).
        freeMapFile d' ! k = (freeMapFile d ! k \<or> k \<in> set (ownedSectors d' hdrSec2))" and
    fresh: "\<forall>s \<in> set (ownedSectors d' hdrSec2). \<not> freeMapFile d ! s"
    by blast
  from sp sp2 have "parent2 = parent" "filename2 = filename" by simp_all
  with od od2 have "dirF2 = dirF" by simp
  with find fi se \<open>filename2 = filename\<close> have same: "hdrSec2 = hdrSec"
    by (simp add: Find_def)
  note wf = wf[unfolded same] and bits = bits[unfolded same] and fresh = fresh[unfolded same]
  from findAndSetN_Some[OF fn] have ll: "length level1Sector = nat L" by simp
  have lroot: "listed d' hdrSec = level1Sector"
    using tk root(3) by (simp add: listed_def hdrListed_def)
  have owned: "ownedSectors d' hdrSec =
               concat (map (listed d') level1Sector) @ level1Sector @ [hdrSec]"
    by (simp add: ownedSectors_def lroot)
  from wf have dist: "distinct (ownedSectors d' hdrSec)"
    and inr: "list_all (\<lambda>s. s < length (freeMapFile d')) (ownedSectors d' hdrSec)"
    and cl: "list_all (\<lambda>s. numSectors (headers d' s) \<le> int (length (dataSectors (headers d' s))))
               (listed d' hdrSec)"
    by (simp_all add: wellFormedFile_def)
  have free: "\<forall>s \<in> set (ownedSectors d' hdrSec). s < length (freeMapFile d) \<and> \<not> freeMapFile d ! s"
    using inr fresh len by (simp add: list_all_iff)
  have each: "\<forall>i < nat L.
        level (headers d' (level1Sector ! i)) = 1 \<and>
        numBytes (headers d' (level1Sector ! i)) =
          (if int i < L - 1 then F else initialSize - (L - 1) * F) \<and>
        numSectors (headers d' (level1Sector ! i)) =
          divRoundUp (numBytes (headers d' (level1Sector ! i))) (int SectorSize) \<and>
        length (listed d' (level1Sector ! i)) =
          nat (numSectors (headers d' (level1Sector ! i)))"
  proof (intro allI impI)
    fix i assume i: "i < nat L"
    with ll have "level1Sector ! i \<in> set (listed d' hdrSec)" by (simp add: lroot)
    with cl have "numSectors (headers d' (level1Sector ! i))
        \<le> int (length (dataSectors (headers d' (level1Sector ! i))))"
      by (simp add: list_all_iff)
    then have "length (listed d' (level1Sector ! i)) =
          nat (numSectors (headers d' (level1Sector ! i)))"
      by (simp add: listed_def hdrListed_def)
    with children i show "level (headers d' (level1Sector ! i)) = 1 \<and>
        numBytes (headers d' (level1Sector ! i)) =
          (if int i < L - 1 then F else initialSize - (L - 1) * F) \<and>
        numSectors (headers d' (level1Sector ! i)) =
          divRoundUp (numBytes (headers d' (level1Sector ! i))) (int SectorSize) \<and>
        length (listed d' (level1Sector ! i)) =
          nat (numSectors (headers d' (level1Sector ! i)))" by blast
  qed
  from sp od fs fn find root tk each owned dist free len bits
  show ?thesis unfolding L_def F_def by blast
qed

theorem Create_builds_headers_witness:
  "Create formatted ''/a'' 100 = Some (True, diskWithFile) \<and>
   Find (dirFile diskWithFile 1) ''a'' = Some 13 \<and>
   level (headers diskWithFile 13) = 0 \<and>
   numBytes (headers diskWithFile 13) = 100 \<and>
   numSectors (headers diskWithFile 13) = 1 \<and>
   take 1 (dataSectors (headers diskWithFile 13)) = [14] \<and>
   level (headers diskWithFile 14) = 1 \<and>
   numBytes (headers diskWithFile 14) = 100 \<and>
   numSectors (headers diskWithFile 14) = 1 \<and>
   listed diskWithFile 14 = [15] \<and>
   ownedSectors diskWithFile 13 = [15, 14, 13] \<and>
   \<not> freeMapFile formatted ! 15 \<and> freeMapFile diskWithFile ! 15 \<and>
   \<not> freeMapFile formatted ! 16 \<and> \<not> freeMapFile diskWithFile ! 16"
proof -
  have L: "divRoundUp 100 (int (SectorSize * NumDirect)) = 1" by code_simp
  from Create_builds_headers[OF Create_diskWithFile, unfolded L]
  obtain parent filename dirF hdrSec level1Sector freeMap1 freeMap2 where
    sp: "SplitPath ''/a'' = Some (parent, filename)" and
    od: "OpenDir formatted parent = Some (Some dirF)" and
    fs: "FindAndSet (freeMapFile formatted) = (Some hdrSec, freeMap1)" and
    fn: "findAndSetN (nat 1) freeMap1 = (Some level1Sector, freeMap2)" and
    rest: "Find (dirFile diskWithFile (hdrSector dirF)) filename = Some hdrSec"
      "level (headers diskWithFile hdrSec) = 0"
      "numBytes (headers diskWithFile hdrSec) = 100"
      "numSectors (headers diskWithFile hdrSec) = 1"
      "take (nat 1) (dataSectors (headers diskWithFile hdrSec)) = level1Sector"
      "\<forall>i < nat 1. level (headers diskWithFile (level1Sector ! i)) = 1 \<and>
         numBytes (headers diskWithFile (level1Sector ! i)) =
           (if int i < 1 - 1 then int (NumDirect * SectorSize)
            else 100 - (1 - 1) * int (NumDirect * SectorSize)) \<and>
         numSectors (headers diskWithFile (level1Sector ! i)) =
           divRoundUp (numBytes (headers diskWithFile (level1Sector ! i))) (int SectorSize) \<and>
         length (listed diskWithFile (level1Sector ! i)) =
           nat (numSectors (headers diskWithFile (level1Sector ! i)))" and
    owned: "ownedSectors diskWithFile hdrSec =
            concat (map (listed diskWithFile) level1Sector) @ level1Sector @ [hdrSec]" and
    bits: "\<forall>k < length (freeMapFile formatted).
        freeMapFile diskWithFile ! k =
        (freeMapFile formatted ! k \<or> k \<in> set (ownedSectors diskWithFile hdrSec))" and
    free: "\<forall>s \<in> set (ownedSectors diskWithFile hdrSec).
             s < length (freeMapFile formatted) \<and> \<not> freeMapFile formatted ! s"
    by blast
  have "SplitPath ''/a'' = Some (''/'', ''a'')" by code_simp
  with sp have p: "parent = ''/''" "filename = ''a''" by simp_all
  have "OpenDir formatted ''/'' = Some (Some (OpenFile 1))" by code_simp
  with od p have dirF: "dirF = OpenFile 1" by simp
  have "fst (FindAndSet (freeMapFile formatted)) = Some 13" by code_simp
  with fs have h: "hdrSec = 13" by simp
  have "fst (findAndSetN (nat 1) (snd (FindAndSet (freeMapFile formatted)))) = Some [14]"
    by code_simp
  with fs fn have l: "level1Sector = [14]" by simp
  from rest(6) have c: "level (headers diskWithFile (level1Sector ! 0)) = 1 \<and>
         numBytes (headers diskWithFile (level1Sector ! 0)) = 100 \<and>
         numSectors (headers diskWithFile (level1Sector ! 0)) =
           divRoundUp (numBytes (headers diskWithFile (level1Sector ! 0))) (int SectorSize)"
    by simp
  have r: "divRoundUp 100 (int SectorSize) = 1" by code_simp
  from c have c': "level (headers diskWithFile 14) = 1"
    "numBytes (headers diskWithFile 14) = 100" "numSectors (headers diskWithFile 14) = 1"
    unfolding l using r by simp_all
  have li: "listed diskWithFile 14 = [15]" by code_simp
  from owned have o: "ownedSectors diskWithFile 13 = [15, 14, 13]"
    unfolding h l by (simp add: li)
  have n: "15 < length (freeMapFile formatted)" "16 < length (freeMapFile formatted)"
    "\<not> freeMapFile formatted ! 16" by code_simp+
  from free o h have f15: "\<not> freeMapFile formatted ! 15" by simp
  from bits n(1) o h have s15: "freeMapFile diskWithFile ! 15" by simp
  from bits n(2) n(3) o h have s16: "\<not> freeMapFile diskWithFile ! 16" by simp
  from rest(1-5) c' li o f15 s15 n(3) s16 show ?thesis
    unfolding p dirF h l using Create_diskWithFile by simp
qed

text \<open>
  \<^verbatim>\<open>Remove\<close> of the file that \<^verbatim>\<open>Create\<close> has just built returns \<^verbatim>\<open>TRUE\<close>, clears
  each sector that \<^verbatim>\<open>Create\<close> took once, and writes the bitmap that \<^verbatim>\<open>Create\<close> had
  read: no sector of a file is lost.
\<close>

lemma Create_then_Remove:
  assumes "Create d path initialSize = Some (True, d1)"
  shows "\<exists>d2. Remove (Suc n) d1 path recur = Some (True, d2, [''Remove '' @ path]) \<and>
              freeMapFile d2 = freeMapFile d \<and> headers d2 = headers d1"
proof -
  from Create_allocates[OF assms] obtain parent filename dirF hdrSec i where
    sp: "SplitPath path = Some (parent, filename)"
    and od: "OpenDir d1 parent = Some (Some dirF)"
    and fi: "FindIndex (dirFile d1 (hdrSector dirF)) filename = Some i"
    and ty: "\<not> type (dirFile d1 (hdrSector dirF) ! i)"
    and se: "sector (dirFile d1 (hdrSector dirF) ! i) = hdrSec"
    and lv: "level (headers d1 hdrSec) = 0"
    and wf: "wellFormedFile d1 hdrSec"
    and len: "length (freeMapFile d1) = length (freeMapFile d)"
    and bits: "\<forall>k < length (freeMapFile d).
        freeMapFile d1 ! k = (freeMapFile d ! k \<or> k \<in> set (ownedSectors d1 hdrSec))"
    and fresh: "\<forall>s \<in> set (ownedSectors d1 hdrSec). \<not> freeMapFile d ! s"
    by blast
  from releaseFile_owned[OF lv wf refl refl, of "hdrSector dirF"
      "dirFile d1 (hdrSector dirF)" filename]
  obtain bm' where
    rel: "releaseFile d1 (hdrSector dirF) (dirFile d1 (hdrSector dirF)) filename hdrSec
            (headers d1 hdrSec) (freeMapFile d1) =
          Some (d1\<lparr>freeMapFile := bm',
                   dirFile := (dirFile d1)(hdrSector dirF :=
                     DirectoryRemove (dirFile d1 (hdrSector dirF)) filename)\<rparr>,
                ownedSectors d1 hdrSec)"
    and len': "length bm' = length (freeMapFile d1)"
    and bits': "\<forall>k < length (freeMapFile d1).
                 bm' ! k = (freeMapFile d1 ! k \<and> k \<notin> set (ownedSectors d1 hdrSec))"
    by blast
  define d2 where "d2 = d1\<lparr>freeMapFile := bm',
      dirFile := (dirFile d1)(hdrSector dirF :=
                   DirectoryRemove (dirFile d1 (hdrSector dirF)) filename)\<rparr>"
  have rm: "Remove (Suc n) d1 path recur = Some (True, d2, [''Remove '' @ path])"
    using RemoveBody_file[OF sp od fi ty] rel se by (simp add: d2_def)
  have "bm' = freeMapFile d"
  proof (rule nth_equalityI)
    show "length bm' = length (freeMapFile d)" using len len' by simp
  next
    fix k assume "k < length bm'"
    then have k: "k < length (freeMapFile d)" using len len' by simp
    with bits' len have "bm' ! k = (freeMapFile d1 ! k \<and> k \<notin> set (ownedSectors d1 hdrSec))"
      by simp
    with bits k fresh show "bm' ! k = freeMapFile d ! k" by auto
  qed
  with rm show ?thesis by (auto simp: d2_def)
qed

end
